theory Spec2Isabelle
  imports Complex_Main "HOL-Library.AList"
begin

section \<open>Data model of scene-data.js\<close>

text \<open>
  A chat message as the extension sees it. The host owns the message; the extension
  reads and writes the fields below. \<open>extra\<close> may be missing on a message, and every
  field inside it may be missing (JavaScript \<open>undefined\<close>), hence the options.
  The chat is an array whose entries the code always guards with \<open>chat[i]?.\<close> or
  \<open>!chat[i]\<close>, so an entry is a \<open>message option\<close>.
\<close>

record msg_extra =
  extra_type :: "string option"
  scene_fold_uuid :: "string option"
  scene_fold_scenes :: "string list option"
  scene_fold_role :: "string option"
  scene_fold_scene_id :: "string option"

record message =
  msg_name :: string
  is_user :: bool
  is_system :: bool
  mes :: string
  extra :: "msg_extra option"

type_synonym chat = "message option list"

datatype status = Defined | Queued | Summarizing | Completed | Error

record scene =
  scene_id :: string
  summaryMessageUUID :: "string option"
  sourceMessageUUIDs :: "string list"
  parentSceneId :: "string option"
  status :: status
  customPrompt :: "string option"
  folded :: bool
  lastError :: "string option"
  createdAt :: int
  stale :: bool
  needsRetry :: bool

text \<open>
  \<open>chat_metadata.scene_fold\<close>: the \<open>scenes\<close> object maps scene ids to scene records.
  A JavaScript object enumerates its string keys in insertion order and holds each key
  once, so it is an association list; assignment to a key is \<open>AList.update\<close>
  (in place when the key exists, appended otherwise).
\<close>

record scene_fold_data =
  scenes :: "(string \<times> scene) list"
  defaultPrompt :: string

record chat_metadata =
  scene_fold :: "scene_fold_data option"

record reconcile_result =
  modifiedScenes :: "string list"
  deletedScenes :: "string list"
  summaryLost :: "string list"

text \<open>JavaScript truthiness of an optional string: \<open>undefined\<close>, \<open>null\<close> and \<open>""\<close> are falsy.\<close>

definition truthy :: "string option \<Rightarrow> bool" where
  "truthy v = (case v of None \<Rightarrow> False | Some s \<Rightarrow> s \<noteq> [])"

text \<open>
  The identifier generator \<open>uuidv4Fn\<close> is an external, stateful function. It is the
  stream of the strings it will return; a call takes the head and leaves the tail.
\<close>

type_synonym uuid_gen = "nat \<Rightarrow> string"

definition mint :: "uuid_gen \<Rightarrow> string \<times> uuid_gen" where
  "mint g = (g 0, \<lambda>n. g (Suc n))"

definition empty_extra :: msg_extra where
  "empty_extra = \<lparr>extra_type = None, scene_fold_uuid = None, scene_fold_scenes = None,
     scene_fold_role = None, scene_fold_scene_id = None\<rparr>"

text \<open>\<open>chat[i]?.extra?.scene_fold_uuid\<close> for an entry, and for a position that may be out of range.\<close>

definition msg_uuid :: "message option \<Rightarrow> string option" where
  "msg_uuid m = (case m of None \<Rightarrow> None
     | Some msg \<Rightarrow> (case extra msg of None \<Rightarrow> None | Some e \<Rightarrow> scene_fold_uuid e))"

definition chat_at :: "chat \<Rightarrow> int \<Rightarrow> message option" where
  "chat_at c i = (if 0 \<le> i \<and> nat i < length c then c ! nat i else None)"

definition ensureMessageUUID :: "message \<Rightarrow> uuid_gen \<Rightarrow> string \<times> message \<times> uuid_gen" where
  "ensureMessageUUID m g =
     (let e = (case extra m of None \<Rightarrow> empty_extra | Some e \<Rightarrow> e) in
      if \<not> truthy (scene_fold_uuid e)
      then (let (u, g') = mint g in (u, m\<lparr>extra := Some (e\<lparr>scene_fold_uuid := Some u\<rparr>)\<rparr>, g'))
      else (case scene_fold_uuid e of
              Some u \<Rightarrow> (u, m\<lparr>extra := Some e\<rparr>, g)
            | None \<Rightarrow> ([], m\<lparr>extra := Some e\<rparr>, g)))"

subsection \<open>Stable identity index\<close>

fun buildUUIDIndex_from :: "chat \<Rightarrow> nat \<Rightarrow> (string \<rightharpoonup> nat) \<Rightarrow> (string \<rightharpoonup> nat)" where
  "buildUUIDIndex_from [] i index = index"
| "buildUUIDIndex_from (m # ms) i index =
     (case msg_uuid m of
        None \<Rightarrow> buildUUIDIndex_from ms (Suc i) index
      | Some uuid \<Rightarrow>
          if uuid \<noteq> [] then buildUUIDIndex_from ms (Suc i) (index(uuid \<mapsto> i))
          else buildUUIDIndex_from ms (Suc i) index)"

definition buildUUIDIndex :: "chat \<Rightarrow> (string \<rightharpoonup> nat)" where
  "buildUUIDIndex c = buildUUIDIndex_from c 0 Map.empty"

text \<open>The fallback linear scan of \<open>findMessageIndexByUUID\<close>, from position \<open>i\<close> on.\<close>

fun linear_scan :: "chat \<Rightarrow> string \<Rightarrow> nat \<Rightarrow> int" where
  "linear_scan [] uuid i = - 1"
| "linear_scan (m # ms) uuid i =
     (if msg_uuid m = Some uuid then int i else linear_scan ms uuid (Suc i))"

text \<open>
  \<open>findMessageIndexByUUID(chat, uuid, uuidIndex)\<close>; the optional third argument is
  \<open>None\<close> when the caller passes no cache. A cache hit is checked against the live
  message before it is returned.
\<close>

definition findMessageIndexByUUID :: "chat \<Rightarrow> string \<Rightarrow> (string \<rightharpoonup> nat) option \<Rightarrow> int" where
  "findMessageIndexByUUID c uuid uuidIndex =
     (case uuidIndex of
        None \<Rightarrow> linear_scan c uuid 0
      | Some index \<Rightarrow>
          (case index uuid of
             None \<Rightarrow> linear_scan c uuid 0
           | Some idx \<Rightarrow>
               if msg_uuid (chat_at c (int idx)) = Some uuid then int idx
               else linear_scan c uuid 0))"

subsection \<open>Scene store\<close>

definition getDefaultSummarizationPrompt :: string where
  "getDefaultSummarizationPrompt =
     ''Summarize the following scene from a roleplay conversation. '' @
     ''Preserve key plot points, character actions, emotional beats, and any important details. '' @
     ''Write the summary in present tense, third person, as a concise narrative paragraph. '' @
     ''Do not add commentary or analysis - only summarize what happened.''"

definition getSceneFoldData :: "chat_metadata \<Rightarrow> scene_fold_data" where
  "getSceneFoldData md =
     (case scene_fold md of
        None \<Rightarrow> \<lparr>scenes = [], defaultPrompt = getDefaultSummarizationPrompt\<rparr>
      | Some d \<Rightarrow> d)"

text \<open>Writing the scenes object back: the metadata object always has \<open>scene_fold\<close> afterwards.\<close>

definition put_scenes :: "chat_metadata \<Rightarrow> (string \<times> scene) list \<Rightarrow> chat_metadata" where
  "put_scenes md ss = md\<lparr>scene_fold := Some ((getSceneFoldData md)\<lparr>scenes := ss\<rparr>)\<rparr>"

definition getScene :: "chat_metadata \<Rightarrow> string \<Rightarrow> scene option" where
  "getScene md sceneId = map_of (scenes (getSceneFoldData md)) sceneId"

text \<open>
  \<open>updateScene(chatMetadata, sceneId, updates)\<close>: \<open>Object.assign\<close> of a partial record
  is a function on scenes; an unknown id leaves the store as it is.
\<close>

definition updateScene :: "chat_metadata \<Rightarrow> string \<Rightarrow> (scene \<Rightarrow> scene) \<Rightarrow> chat_metadata" where
  "updateScene md sceneId updates =
     (case map_of (scenes (getSceneFoldData md)) sceneId of
        None \<Rightarrow> put_scenes md (scenes (getSceneFoldData md))
      | Some sc \<Rightarrow> put_scenes md (AList.update sceneId (updates sc) (scenes (getSceneFoldData md))))"

text \<open>One iteration of the loop of \<open>createScene\<close> over the positions of the range.\<close>

definition tag_source :: "string \<Rightarrow> message \<Rightarrow> message" where
  "tag_source sceneId m =
     (case extra m of
        None \<Rightarrow> m
      | Some e \<Rightarrow>
          (let tags = (case scene_fold_scenes e of None \<Rightarrow> [] | Some ts \<Rightarrow> ts);
               tags' = (if sceneId \<in> set tags then tags else tags @ [sceneId])
           in m\<lparr>extra := Some (e\<lparr>scene_fold_scenes := Some tags', scene_fold_role := Some ''source''\<rparr>)\<rparr>))"

definition createScene_step ::
  "string \<Rightarrow> chat \<times> string list \<times> uuid_gen \<Rightarrow> int \<Rightarrow> chat \<times> string list \<times> uuid_gen" where
  "createScene_step sceneId st i =
     (case st of (c, sourceUUIDs, g) \<Rightarrow>
        (case chat_at c i of
           None \<Rightarrow> (c, sourceUUIDs, g)
         | Some m \<Rightarrow>
             (case ensureMessageUUID m g of (uuid, m', g') \<Rightarrow>
                (c[nat i := Some (tag_source sceneId m')], sourceUUIDs @ [uuid], g'))))"

text \<open>
  \<open>createScene\<close> returns the new scene; the model returns it with the metadata, the
  chat and the generator as the call leaves them. \<open>now\<close> is the value of \<open>Date.now()\<close>.
\<close>

definition createScene ::
  "chat_metadata \<Rightarrow> chat \<Rightarrow> int \<Rightarrow> int \<Rightarrow> uuid_gen \<Rightarrow> string option \<Rightarrow> int
     \<Rightarrow> scene \<times> chat_metadata \<times> chat \<times> uuid_gen" where
  "createScene md c startIndex endIndex g customPrompt_arg now =
     (let dat = getSceneFoldData md;
          (sceneId, g1) = mint g;
          (c', sourceUUIDs, g2) = foldl (createScene_step sceneId) (c, [], g1) [startIndex..endIndex];
          sc = \<lparr>scene_id = sceneId, summaryMessageUUID = None, sourceMessageUUIDs = sourceUUIDs,
                parentSceneId = None, status = Defined,
                customPrompt = (if truthy customPrompt_arg then customPrompt_arg else None),
                folded = False, lastError = None, createdAt = now, stale = False,
                needsRetry = False\<rparr>
      in (sc, put_scenes md (AList.update sceneId sc (scenes dat)), c', g2))"

text \<open>\<open>getMessageScenes\<close> and \<open>findOverlappingScenes\<close>; the result keeps first occurrences, as a \<open>Set\<close> does.\<close>

definition getMessageScenes :: "chat \<Rightarrow> int \<Rightarrow> string list" where
  "getMessageScenes c messageIndex =
     (case chat_at c messageIndex of
        None \<Rightarrow> []
      | Some m \<Rightarrow> (case extra m of None \<Rightarrow> []
          | Some e \<Rightarrow> (case scene_fold_scenes e of None \<Rightarrow> [] | Some ts \<Rightarrow> ts)))"

definition findOverlappingScenes :: "chat_metadata \<Rightarrow> chat \<Rightarrow> int \<Rightarrow> int \<Rightarrow> string list" where
  "findOverlappingScenes md c startIndex endIndex =
     rev (remdups (rev (concat (map (getMessageScenes c) [startIndex..endIndex]))))"

subsection \<open>Deletion reconciliation\<close>

text \<open>Updating the message at a position the resolver returned.\<close>

definition update_msg :: "chat \<Rightarrow> int \<Rightarrow> (message \<Rightarrow> message) \<Rightarrow> chat" where
  "update_msg c i f =
     (case chat_at c i of None \<Rightarrow> c | Some m \<Rightarrow> c[nat i := Some (f m)])"

definition clear_summary_tags :: "message \<Rightarrow> message" where
  "clear_summary_tags m =
     m\<lparr>extra := map_option (\<lambda>e. e\<lparr>scene_fold_scene_id := None, scene_fold_role := None\<rparr>) (extra m)\<rparr>"

text \<open>The loop that restores visibility of the remaining sources of a scene.\<close>

definition unhide_sources :: "chat \<Rightarrow> (string \<rightharpoonup> nat) \<Rightarrow> string list \<Rightarrow> chat" where
  "unhide_sources c index uuids =
     foldl (\<lambda>c' uuid.
        (let idx = findMessageIndexByUUID c' uuid (Some index) in
         if idx \<noteq> - 1 then update_msg c' idx (\<lambda>m. m\<lparr>is_system := False\<rparr>) else c'))
       c uuids"

text \<open>
  \<open>if (scene.summaryMessageUUID) { summaryIdx = findMessageIndexByUUID(...) }\<close>: the
  position of the summary message when the scene names one, \<open>None\<close> when the field is falsy.
\<close>

definition summary_index :: "chat \<Rightarrow> (string \<rightharpoonup> nat) \<Rightarrow> scene \<Rightarrow> int option" where
  "summary_index c index sc =
     (case summaryMessageUUID sc of
        None \<Rightarrow> None
      | Some su \<Rightarrow> if su \<noteq> [] then Some (findMessageIndexByUUID c su (Some index)) else None)"

text \<open>
  The body of the loop over \<open>Object.entries(data.scenes)\<close> for one entry. The
  scene object is mutated where it stands; the result is \<open>None\<close> when the body ends in
  \<open>delete data.scenes[sceneId]\<close> and \<open>continue\<close>. The index was built once, before
  the loop, and is the third argument of every lookup.
\<close>

definition reconcile_scene ::
  "string \<Rightarrow> scene \<Rightarrow> (string \<rightharpoonup> nat) \<Rightarrow> chat \<Rightarrow> reconcile_result
     \<Rightarrow> scene option \<times> chat \<times> reconcile_result" where
  "reconcile_scene sceneId sc index c res =
     (let validSources =
            filter (\<lambda>uuid. findMessageIndexByUUID c uuid (Some index) \<noteq> - 1) (sourceMessageUUIDs sc);
          modified = (length validSources \<noteq> length (sourceMessageUUIDs sc));
          sc1 = (if modified then sc\<lparr>sourceMessageUUIDs := validSources\<rparr> else sc)
      in
      if length validSources = 0 then
        (let c1 = (case summary_index c index sc1 of
                     None \<Rightarrow> c
                   | Some summaryIdx \<Rightarrow>
                       if summaryIdx \<noteq> - 1 then update_msg c summaryIdx clear_summary_tags else c)
         in (None, c1, res\<lparr>deletedScenes := deletedScenes res @ [sceneId]\<rparr>))
      else
        (let lost = (summary_index c index sc1 = Some (- 1));
             sc2 = (if lost then sc1\<lparr>summaryMessageUUID := None, status := Defined, folded := False\<rparr>
                    else sc1);
             res1 = (if lost then res\<lparr>summaryLost := summaryLost res @ [sceneId]\<rparr> else res);
             c1 = (if lost then unhide_sources c index (sourceMessageUUIDs sc2) else c);
             modified' = (modified \<or> lost);
             res2 = (if modified' \<and> sceneId \<notin> set (deletedScenes res1)
                     then res1\<lparr>modifiedScenes := modifiedScenes res1 @ [sceneId]\<rparr> else res1)
         in (Some sc2, c1, res2)))"

fun reconcile_entries ::
  "(string \<times> scene) list \<Rightarrow> (string \<rightharpoonup> nat) \<Rightarrow> chat \<Rightarrow> reconcile_result
     \<Rightarrow> (string \<times> scene) list \<times> chat \<times> reconcile_result" where
  "reconcile_entries [] index c res = ([], c, res)"
| "reconcile_entries ((sceneId, sc) # rest) index c res =
     (case reconcile_scene sceneId sc index c res of
        (None, c1, res1) \<Rightarrow> reconcile_entries rest index c1 res1
      | (Some sc', c1, res1) \<Rightarrow>
          (case reconcile_entries rest index c1 res1 of
             (rest', c', res') \<Rightarrow> ((sceneId, sc') # rest', c', res')))"

definition reconcileScenesAfterDeletion ::
  "chat_metadata \<Rightarrow> chat \<Rightarrow> chat_metadata \<times> chat \<times> reconcile_result" where
  "reconcileScenesAfterDeletion md c =
     (let dat = getSceneFoldData md;
          uuidIndex = buildUUIDIndex c
      in (case reconcile_entries (scenes dat) uuidIndex c
                 \<lparr>modifiedScenes = [], deletedScenes = [], summaryLost = []\<rparr> of
            (ss, c', res) \<Rightarrow> (put_scenes md ss, c', res)))"

subsection \<open>Duplication reconciliation\<close>

text \<open>
  \<open>uuidOccurrences\<close> is a \<open>Map\<close> from identifier to the positions that carry it; a
  \<open>Map\<close> enumerates its keys in insertion order, so it is an association list, and
  \<open>get(uuid).push(i)\<close> is an update in place. Every entry of the chat is a message
  of its own (the host duplicates a message as a structural clone), so writing the
  identifier of one entry leaves the other entries as they are.
\<close>

fun uuidOccurrences_from :: "chat \<Rightarrow> nat \<Rightarrow> (string \<times> nat list) list \<Rightarrow> (string \<times> nat list) list" where
  "uuidOccurrences_from [] i occ = occ"
| "uuidOccurrences_from (m # ms) i occ =
     (case msg_uuid m of
        None \<Rightarrow> uuidOccurrences_from ms (Suc i) occ
      | Some uuid \<Rightarrow>
          if uuid = [] then uuidOccurrences_from ms (Suc i) occ
          else uuidOccurrences_from ms (Suc i)
                 (AList.update uuid ((case map_of occ uuid of None \<Rightarrow> [] | Some idxs \<Rightarrow> idxs) @ [i]) occ))"

definition uuidOccurrences :: "chat \<Rightarrow> (string \<times> nat list) list" where
  "uuidOccurrences c = uuidOccurrences_from c 0 []"

text \<open>\<open>indexOf\<close>, and the \<open>splice\<close> or \<open>push\<close> that puts the new identifier into a source list.\<close>

fun indexOf :: "string list \<Rightarrow> string \<Rightarrow> nat option" where
  "indexOf [] x = None"
| "indexOf (y # ys) x = (if y = x then Some 0 else map_option Suc (indexOf ys x))"

definition insert_after :: "string \<Rightarrow> string \<Rightarrow> string list \<Rightarrow> string list" where
  "insert_after originalUUID newUUID xs =
     (case indexOf xs originalUUID of
        Some origPos \<Rightarrow> take (origPos + 1) xs @ newUUID # drop (origPos + 1) xs
      | None \<Rightarrow> xs @ [newUUID])"

text \<open>The body of the loop over the scene tags of the duplicate, on the \<open>scenes\<close> object.\<close>

definition add_to_scene ::
  "string \<Rightarrow> string \<Rightarrow> (string \<times> scene) list \<Rightarrow> string \<Rightarrow> (string \<times> scene) list" where
  "add_to_scene originalUUID newUUID ss sceneId =
     (case map_of ss sceneId of
        None \<Rightarrow> ss
      | Some sc \<Rightarrow>
          AList.update sceneId
            (sc\<lparr>sourceMessageUUIDs := insert_after originalUUID newUUID (sourceMessageUUIDs sc)\<rparr>) ss)"

definition set_uuid :: "string \<Rightarrow> message \<Rightarrow> message" where
  "set_uuid newUUID m = m\<lparr>extra := map_option (\<lambda>e. e\<lparr>scene_fold_uuid := Some newUUID\<rparr>) (extra m)\<rparr>"

text \<open>The body of the loop over the later occurrences of one identifier.\<close>

definition fix_duplicate ::
  "string \<Rightarrow> (string \<times> scene) list \<times> chat \<times> uuid_gen \<times> nat \<Rightarrow> nat
     \<Rightarrow> (string \<times> scene) list \<times> chat \<times> uuid_gen \<times> nat" where
  "fix_duplicate originalUUID st dupIdx =
     (case st of (ss, c, g, fixedCount) \<Rightarrow>
        (let (newUUID, g') = mint g;
             c' = update_msg c (int dupIdx) (set_uuid newUUID);
             sceneIds = getMessageScenes c' (int dupIdx);
             ss' = foldl (add_to_scene originalUUID newUUID) ss sceneIds
         in (ss', c', g', fixedCount + 1)))"

definition fix_occurrences ::
  "(string \<times> scene) list \<times> chat \<times> uuid_gen \<times> nat \<Rightarrow> string \<times> nat list
     \<Rightarrow> (string \<times> scene) list \<times> chat \<times> uuid_gen \<times> nat" where
  "fix_occurrences st entry =
     (case entry of (originalUUID, indices) \<Rightarrow>
        if length indices \<le> 1 then st
        else foldl (fix_duplicate originalUUID) st (drop 1 indices))"

text \<open>
  \<open>reconcileDuplicatedMessages\<close> returns the number of messages fixed; the model returns
  it with the metadata, the chat and the generator as the call leaves them.
\<close>

definition reconcileDuplicatedMessages ::
  "chat_metadata \<Rightarrow> chat \<Rightarrow> uuid_gen \<Rightarrow> nat \<times> chat_metadata \<times> chat \<times> uuid_gen" where
  "reconcileDuplicatedMessages md c g =
     (let dat = getSceneFoldData md in
      case foldl fix_occurrences (scenes dat, c, g, 0) (uuidOccurrences c) of
        (ss, c', g', fixedCount) \<Rightarrow> (fixedCount, put_scenes md ss, c', g'))"

section \<open>Summarization (index.js) and the summarization queue\<close>

subsection \<open>Strings: case, trimming, pattern tests\<close>

text \<open>
  Strings are lists of ASCII characters. \<open>toLowerCase\<close> maps \<open>A\<close>..\<open>Z\<close> to \<open>a\<close>..\<open>z\<close>,
  \<open>trim\<close> strips the ASCII white space and line terminators at both ends.
\<close>

definition lower_char :: "char \<Rightarrow> char" where
  "lower_char c =
     (let n = (of_char c :: nat) in if 65 \<le> n \<and> n \<le> 90 then char_of (n + 32) else c)"

definition toLowerCase :: "string \<Rightarrow> string" where
  "toLowerCase s = map lower_char s"

definition is_space :: "char \<Rightarrow> bool" where
  "is_space c = ((of_char c :: nat) \<in> {9, 10, 11, 12, 13, 32})"

definition trim :: "string \<Rightarrow> string" where
  "trim s = rev (dropWhile is_space (rev (dropWhile is_space s)))"

fun starts_with :: "string \<Rightarrow> string \<Rightarrow> bool" where
  "starts_with [] s = True"
| "starts_with (p # ps) [] = False"
| "starts_with (p # ps) (c # cs) = (p = c \<and> starts_with ps cs)"

text \<open>An unanchored regular expression matches when it matches at some position.\<close>

fun matches_somewhere :: "(string \<Rightarrow> bool) \<Rightarrow> string \<Rightarrow> bool" where
  "matches_somewhere P [] = P []"
| "matches_somewhere P (c # cs) = (P (c # cs) \<or> matches_somewhere P cs)"

definition has_substring :: "string \<Rightarrow> string \<Rightarrow> bool" where
  "has_substring pat s = matches_somewhere (starts_with pat) s"

definition line_terminator :: "char \<Rightarrow> bool" where
  "line_terminator c = ((of_char c :: nat) \<in> {10, 13})"

text \<open>\<open>content.?filter\<close>, anchored: the dot matches any character but a line terminator.\<close>

definition content_filter_at :: "string \<Rightarrow> bool" where
  "content_filter_at s =
     (starts_with ''content'' s \<and>
      (starts_with ''filter'' (drop 7 s) \<or>
       (case drop 7 s of [] \<Rightarrow> False
        | c # r \<Rightarrow> \<not> line_terminator c \<and> starts_with ''filter'' r)))"

text \<open>
  The test of \<open>summarizeScene\<close> on the lower-cased error text:
  \<open>/prohibit|content.?filter|refus|safety|moderat|blocked|policy|unauthorized|forbidden|400|401|403|429/\<close>.
\<close>

definition nonRetryable :: "string \<Rightarrow> bool" where
  "nonRetryable errMsg =
     (has_substring ''prohibit'' errMsg \<or> matches_somewhere content_filter_at errMsg \<or>
      has_substring ''refus'' errMsg \<or> has_substring ''safety'' errMsg \<or> has_substring ''moderat'' errMsg \<or>
      has_substring ''blocked'' errMsg \<or> has_substring ''policy'' errMsg \<or>
      has_substring ''unauthorized'' errMsg \<or> has_substring ''forbidden'' errMsg \<or>
      has_substring ''400'' errMsg \<or> has_substring ''401'' errMsg \<or> has_substring ''403'' errMsg \<or>
      has_substring ''429'' errMsg)"

definition word_char :: "char \<Rightarrow> bool" where
  "word_char c =
     (let n = (of_char c :: nat) in
      (48 \<le> n \<and> n \<le> 57) \<or> (65 \<le> n \<and> n \<le> 90) \<or> (97 \<le> n \<and> n \<le> 122) \<or> n = 95)"

definition refusal_phrases :: "string list" where
  "refusal_phrases =
     [''i cannot'', ''i can'' @ [CHR 0x27] @ ''t'', ''i'' @ [CHR 0x27] @ ''m unable'', ''i am unable'',
      ''not able to'', ''content policy'', ''violat'', ''against my'', ''guidelines'']"

text \<open>
  \<open>/\b(i cannot|...|guidelines)\b/i\<close>: every phrase begins and ends with a word
  character, so the first \<open>\b\<close> asks that the character before is not a word character
  (or that the phrase opens the text) and the second that the character after is not one.
  \<open>prev_word\<close> tells whether the character before the current position is a word character.
\<close>

definition phrase_at :: "string \<Rightarrow> string \<Rightarrow> bool" where
  "phrase_at s ph =
     (starts_with ph s \<and> (case drop (length ph) s of [] \<Rightarrow> True | c # r \<Rightarrow> \<not> word_char c))"

fun refusal_scan :: "bool \<Rightarrow> string \<Rightarrow> bool" where
  "refusal_scan prev_word [] = False"
| "refusal_scan prev_word (c # cs) =
     ((\<not> prev_word \<and> list_ex (phrase_at (c # cs)) refusal_phrases)
      \<or> refusal_scan (word_char c) cs)"

definition refusal_text :: "string \<Rightarrow> bool" where
  "refusal_text trimmed = (length trimmed < 200 \<and> refusal_scan False (toLowerCase trimmed))"

text \<open>Decimal numerals, for the message that reports the number of attempts.\<close>

definition digit_char :: "nat \<Rightarrow> char" where
  "digit_char d = char_of (48 + d)"

function decimal_digits :: "nat \<Rightarrow> string \<Rightarrow> string" where
  "decimal_digits n acc =
     (if n < 10 then digit_char n # acc
      else decimal_digits (n div 10) (digit_char (n mod 10) # acc))"
  by pat_completeness auto
termination
  by (relation "measure fst") auto

text \<open>The text of a number in a template literal.\<close>

definition number_text :: "int \<Rightarrow> string" where
  "number_text i =
     (if 0 \<le> i then decimal_digits (nat i) [] else CHR ''-'' # decimal_digits (nat (- i)) [])"

subsection \<open>Errors and the results of the external calls\<close>

text \<open>
  A thrown value has a name and a message. \<open>error.message || String(error)\<close> is the
  message when it is not empty and the name otherwise (\<open>Error.prototype.toString\<close> of
  an error with an empty message).
\<close>

record js_error =
  err_name :: string
  err_message :: string

definition error_text :: "js_error \<Rightarrow> string" where
  "error_text e = (if err_message e \<noteq> [] then err_message e else err_name e)"

definition AbortError :: js_error where
  "AbortError = \<lparr>err_name = ''AbortError'', err_message = ''Aborted''\<rparr>"

definition no_sources_error :: js_error where
  "no_sources_error = \<lparr>err_name = ''Error'',
     err_message = ''No source messages found for this scene - UUIDs may be stale''\<rparr>"

definition refusal_error :: "string \<Rightarrow> js_error" where
  "refusal_error trimmed = \<lparr>err_name = ''Error'',
     err_message = ''LLM refused to summarize (possible content filter): '' @ [CHR 0x22] @
       take 120 trimmed @ ''...'' @ [CHR 0x22]\<rparr>"

definition blank_error :: "int \<Rightarrow> js_error" where
  "blank_error maxAttempts = \<lparr>err_name = ''Error'',
     err_message = ''LLM returned blank summary after '' @ number_text maxAttempts @ '' attempt'' @
       (if maxAttempts \<noteq> 1 then ''s'' else [])\<rparr>"

text \<open>How a call of \<open>generateRaw\<close> and a call of \<open>saveChat\<close> can end.\<close>

datatype gen_result = Threw js_error | Returned "string option"

datatype save_result = Saved | SaveFailed js_error

text \<open>What the summarizer reads from the host context: whether \<open>generateRaw\<close> is a function, and \<open>settings.maxRetries\<close>.\<close>

record env =
  has_generateRaw :: bool
  maxRetries :: "int option"

subsection \<open>The queue, the worker in flight, and the system state\<close>

record queue =
  pending :: "string list"
  activeId :: "string option"
  activeAbort :: "bool option"
  processing :: bool
  batchTotal :: nat
  batchDone :: nat

text \<open>
  The asynchronous worker is the call in flight: where it is suspended, with the local
  variables it will need when it resumes. \<open>Settled\<close> is the worker's promise settled and
  the continuation of \<open>_processNext\<close> not yet run.
\<close>

datatype settle = Fulfilled | RejectedAbort | RejectedOther

datatype worker =
    Idle
  | RetrySaving string
  | Generating string nat int "int list"
  | Saving string
  | Settled string settle

record sys =
  q :: queue
  store :: chat_metadata
  msgs :: chat
  uuidv4 :: uuid_gen
  job :: worker
  timers :: nat

definition aborted :: "sys \<Rightarrow> bool" where
  "aborted st = (activeAbort (q st) = Some True)"

text \<open>The loops of \<open>summarizeScene\<close> and \<open>prepareForRetry\<close> that hide or show the sources, resolving without a cache.\<close>

definition set_sources_hidden :: "chat \<Rightarrow> string list \<Rightarrow> bool \<Rightarrow> chat" where
  "set_sources_hidden c uuids flag =
     foldl (\<lambda>c' uuid.
        (let idx = findMessageIndexByUUID c' uuid None in
         if idx = - 1 then c' else update_msg c' idx (\<lambda>m. m\<lparr>is_system := flag\<rparr>)))
       c uuids"

text \<open>The two exits of the \<open>catch\<close> block of \<open>summarizeScene\<close>.\<close>

definition abort_exit :: "string \<Rightarrow> sys \<Rightarrow> sys" where
  "abort_exit sceneId st =
     st\<lparr>store := updateScene (store st) sceneId (\<lambda>s. s\<lparr>status := Defined, lastError := None\<rparr>),
        job := Settled sceneId RejectedAbort\<rparr>"

definition catch_exit :: "string \<Rightarrow> js_error \<Rightarrow> sys \<Rightarrow> sys" where
  "catch_exit sceneId e st =
     (if err_name e = ''AbortError'' then abort_exit sceneId st
      else st\<lparr>store := updateScene (store st) sceneId
                 (\<lambda>s. s\<lparr>status := Error, lastError := Some (error_text e)\<rparr>),
              job := Settled sceneId Fulfilled\<rparr>)"

text \<open>The top of the retry loop, for the attempt numbered \<open>attempt\<close>.\<close>

definition attempt_loop :: "string \<Rightarrow> nat \<Rightarrow> int \<Rightarrow> int list \<Rightarrow> sys \<Rightarrow> sys" where
  "attempt_loop sceneId attempt maxAttempts sourceIndices st =
     (if int attempt \<le> maxAttempts then
        (if aborted st then catch_exit sceneId AbortError st
         else st\<lparr>job := Generating sceneId attempt maxAttempts sourceIndices\<rparr>)
      else catch_exit sceneId (blank_error maxAttempts) st)"

text \<open>\<open>summarizeScene\<close> from its call to its first \<open>await\<close>.\<close>

definition summarizeScene_start :: "env \<Rightarrow> string \<Rightarrow> sys \<Rightarrow> sys" where
  "summarizeScene_start ev sceneId st =
     (if \<not> has_generateRaw ev then st\<lparr>job := Settled sceneId Fulfilled\<rparr>
      else
        (case getScene (store st) sceneId of
           None \<Rightarrow> st\<lparr>job := Settled sceneId Fulfilled\<rparr>
         | Some sc \<Rightarrow>
             if status sc \<noteq> Defined \<and> status sc \<noteq> Error \<and> status sc \<noteq> Queued
             then st\<lparr>job := Settled sceneId Fulfilled\<rparr>
             else
               (let st1 = st\<lparr>store := updateScene (store st) sceneId
                              (\<lambda>s. s\<lparr>status := Summarizing, lastError := None\<rparr>)\<rparr>
                in if aborted st1 then catch_exit sceneId AbortError st1
                   else
                     (let uuidIndex = buildUUIDIndex (msgs st1);
                          sourceIndices =
                            filter (\<lambda>idx. idx \<noteq> - 1)
                              (map (\<lambda>uuid. findMessageIndexByUUID (msgs st1) uuid (Some uuidIndex))
                                 (sourceMessageUUIDs sc))
                      in if length sourceIndices = 0 then catch_exit sceneId no_sources_error st1
                         else attempt_loop sceneId 1
                                (1 + (case maxRetries ev of None \<Rightarrow> 2 | Some n \<Rightarrow> n))
                                sourceIndices st1))))"

text \<open>
  The success path after the loop: the summary message is spliced in before the first
  source, the sources are hidden, the scene is completed, and \<open>saveChat\<close> is awaited.
\<close>

definition summary_message :: "string \<Rightarrow> string \<Rightarrow> string \<Rightarrow> message" where
  "summary_message sceneId summary uuid =
     \<lparr>msg_name = ''Scene Summary'', is_user = False, is_system = False, mes = trim summary,
      extra = Some \<lparr>extra_type = Some ''narrator'', scene_fold_uuid = Some uuid,
        scene_fold_scenes = None, scene_fold_role = Some ''summary'',
        scene_fold_scene_id = Some sceneId\<rparr>\<rparr>"

definition min_index :: "chat \<Rightarrow> int list \<Rightarrow> nat" where
  "min_index c idxs = (case idxs of [] \<Rightarrow> length c | i # r \<Rightarrow> nat (fold min r i))"

definition insert_summary :: "string \<Rightarrow> string \<Rightarrow> int list \<Rightarrow> sys \<Rightarrow> sys" where
  "insert_summary sceneId summary sourceIndices st =
     (let firstSourceIdx = min_index (msgs st) sourceIndices;
          (uuid, g') = mint (uuidv4 st);
          c1 = take firstSourceIdx (msgs st) @ Some (summary_message sceneId summary uuid)
                 # drop firstSourceIdx (msgs st);
          srcs = (case getScene (store st) sceneId of None \<Rightarrow> [] | Some sc \<Rightarrow> sourceMessageUUIDs sc);
          c2 = set_sources_hidden c1 srcs True
      in st\<lparr>msgs := c2, uuidv4 := g',
            store := updateScene (store st) sceneId
              (\<lambda>s. s\<lparr>status := Completed, folded := True, summaryMessageUUID := Some uuid\<rparr>),
            job := Saving sceneId\<rparr>)"

text \<open>\<open>summarizeScene\<close> resumed by the end of the call of \<open>generateRaw\<close>.\<close>

definition summarizeScene_resume ::
  "string \<Rightarrow> nat \<Rightarrow> int \<Rightarrow> int list \<Rightarrow> gen_result \<Rightarrow> sys \<Rightarrow> sys" where
  "summarizeScene_resume sceneId attempt maxAttempts sourceIndices r st =
     (case r of
        Threw genError \<Rightarrow>
          if aborted st then catch_exit sceneId AbortError st
          else if nonRetryable (toLowerCase (error_text genError)) \<or> int attempt \<ge> maxAttempts
          then catch_exit sceneId genError st
          else attempt_loop sceneId (Suc attempt) maxAttempts sourceIndices st
      | Returned res \<Rightarrow>
          if aborted st then catch_exit sceneId AbortError st
          else
            (case res of
               None \<Rightarrow> attempt_loop sceneId (Suc attempt) maxAttempts sourceIndices st
             | Some text \<Rightarrow>
                 if text \<noteq> [] \<and> length (trim text) > 0 then
                   (if refusal_text (trim text) then catch_exit sceneId (refusal_error (trim text)) st
                    else insert_summary sceneId (trim text) sourceIndices st)
                 else attempt_loop sceneId (Suc attempt) maxAttempts sourceIndices st))"

text \<open>\<open>prepareForRetry\<close> from its call to its \<open>await saveChat()\<close>.\<close>

definition prepareForRetry_start :: "string \<Rightarrow> sys \<Rightarrow> sys" where
  "prepareForRetry_start sceneId st =
     (case getScene (store st) sceneId of
        None \<Rightarrow> st
      | Some sc \<Rightarrow>
          (let c1 = (case summaryMessageUUID sc of
                       None \<Rightarrow> msgs st
                     | Some su \<Rightarrow>
                         if su \<noteq> [] then
                           (let summaryIdx = findMessageIndexByUUID (msgs st) su None in
                            if summaryIdx \<noteq> - 1
                            then take (nat summaryIdx) (msgs st) @ drop (Suc (nat summaryIdx)) (msgs st)
                            else msgs st)
                         else msgs st);
               c2 = set_sources_hidden c1 (sourceMessageUUIDs sc) False
           in st\<lparr>msgs := c2,
                 store := updateScene (store st) sceneId
                   (\<lambda>s. s\<lparr>status := Defined, folded := False, summaryMessageUUID := None,
                          lastError := None, stale := False\<rparr>),
                 job := RetrySaving sceneId\<rparr>))"

text \<open>The worker the queue is built with, from its call to its first \<open>await\<close>.\<close>

definition worker_start :: "env \<Rightarrow> string \<Rightarrow> sys \<Rightarrow> sys" where
  "worker_start ev sceneId st =
     (case getScene (store st) sceneId of
        None \<Rightarrow> summarizeScene_start ev sceneId st
      | Some sc \<Rightarrow>
          if needsRetry sc
          then prepareForRetry_start sceneId
                 (st\<lparr>store := updateScene (store st) sceneId (\<lambda>s. s\<lparr>needsRetry := False\<rparr>)\<rparr>)
          else summarizeScene_start ev sceneId st)"

subsection \<open>SummarizationQueue\<close>

definition processNext :: "env \<Rightarrow> sys \<Rightarrow> sys" where
  "processNext ev st =
     (case pending (q st) of
        [] \<Rightarrow> st\<lparr>q := (q st)\<lparr>processing := False, activeId := None, activeAbort := None,
                              batchTotal := 0, batchDone := 0\<rparr>\<rparr>
      | sceneId # rest \<Rightarrow>
          worker_start ev sceneId
            (st\<lparr>q := (q st)\<lparr>processing := True, pending := rest, activeId := Some sceneId,
                             activeAbort := Some False\<rparr>\<rparr>))"

definition add :: "env \<Rightarrow> string \<Rightarrow> sys \<Rightarrow> sys" where
  "add ev sceneId st =
     (if sceneId \<in> set (pending (q st)) \<or> activeId (q st) = Some sceneId then st
      else
        (let st1 = st\<lparr>q := (q st)\<lparr>pending := pending (q st) @ [sceneId],
                                    batchTotal := Suc (batchTotal (q st))\<rparr>,
                      store := updateScene (store st) sceneId (\<lambda>s. s\<lparr>status := Queued\<rparr>)\<rparr>
         in if \<not> processing (q st1) then processNext ev st1 else st1))"

definition addAll :: "env \<Rightarrow> string list \<Rightarrow> sys \<Rightarrow> sys" where
  "addAll ev sceneIds st =
     foldl (\<lambda>s sceneId. add ev sceneId s)
       (st\<lparr>q := (q st)\<lparr>batchTotal := length (pending (q st)) + (if truthy (activeId (q st)) then 1 else 0),
                        batchDone := 0\<rparr>\<rparr>)
       sceneIds"

text \<open>Reverting a pending scene: only a scene that is still \<open>queued\<close> goes back to \<open>defined\<close>.\<close>

definition revert_queued :: "chat_metadata \<Rightarrow> string \<Rightarrow> chat_metadata" where
  "revert_queued md sceneId =
     (case getScene md sceneId of
        None \<Rightarrow> md
      | Some sc \<Rightarrow> if status sc = Queued then updateScene md sceneId (\<lambda>s. s\<lparr>status := Defined\<rparr>) else md)"

definition cancel :: "string \<Rightarrow> sys \<Rightarrow> sys" where
  "cancel sceneId st =
     (if sceneId \<in> set (pending (q st)) then
        st\<lparr>q := (q st)\<lparr>pending := remove1 sceneId (pending (q st)),
                        batchDone := Suc (batchDone (q st))\<rparr>,
           store := revert_queued (store st) sceneId\<rparr>
      else if activeId (q st) = Some sceneId \<and> activeAbort (q st) \<noteq> None
      then st\<lparr>q := (q st)\<lparr>activeAbort := Some True\<rparr>\<rparr>
      else st)"

definition cancelAll :: "sys \<Rightarrow> sys" where
  "cancelAll st =
     st\<lparr>q := (q st)\<lparr>activeAbort := (if activeAbort (q st) \<noteq> None then Some True else None),
                     pending := [], batchTotal := 0, batchDone := 0\<rparr>,
        store := foldl revert_queued (store st) (pending (q st))\<rparr>"

text \<open>
  The rest of \<open>_processNext\<close>, after \<open>await this._worker(...)\<close>: the safety net of the
  \<open>catch\<close> block, the counters, and the timer that will call \<open>_processNext\<close> again.
\<close>

definition processNext_resume :: "string \<Rightarrow> settle \<Rightarrow> sys \<Rightarrow> sys" where
  "processNext_resume sceneId outcome st =
     (let md1 = (if outcome = RejectedAbort then
                   (case getScene (store st) sceneId of
                      None \<Rightarrow> store st
                    | Some sc \<Rightarrow>
                        if status sc = Summarizing
                        then updateScene (store st) sceneId (\<lambda>s. s\<lparr>status := Defined, lastError := None\<rparr>)
                        else store st)
                 else store st)
      in st\<lparr>store := md1,
            q := (q st)\<lparr>batchDone := Suc (batchDone (q st)), activeId := None, activeAbort := None\<rparr>,
            job := Idle, timers := Suc (timers st)\<rparr>)"

text \<open>
  The step function of the system: the calls of the queue's interface, and the events
  that resume suspended code. An event that has nothing to resume leaves the state as it
  is.
\<close>

datatype event =
    Add string
  | AddAll "string list"
  | Cancel string
  | CancelAll
  | GenDone gen_result
  | SaveDone save_result
  | Resume
  | Timer

definition step :: "env \<Rightarrow> event \<Rightarrow> sys \<Rightarrow> sys" where
  "step ev e st =
     (case e of
        Add sceneId \<Rightarrow> add ev sceneId st
      | AddAll sceneIds \<Rightarrow> addAll ev sceneIds st
      | Cancel sceneId \<Rightarrow> cancel sceneId st
      | CancelAll \<Rightarrow> cancelAll st
      | GenDone r \<Rightarrow>
          (case job st of
             Generating sceneId attempt maxAttempts sourceIndices \<Rightarrow>
               summarizeScene_resume sceneId attempt maxAttempts sourceIndices r st
           | _ \<Rightarrow> st)
      | SaveDone r \<Rightarrow>
          (case job st of
             Saving sceneId \<Rightarrow>
               (case r of Saved \<Rightarrow> st\<lparr>job := Settled sceneId Fulfilled\<rparr>
                | SaveFailed err \<Rightarrow> catch_exit sceneId err st)
           | RetrySaving sceneId \<Rightarrow>
               (case r of Saved \<Rightarrow> summarizeScene_start ev sceneId st
                | SaveFailed err \<Rightarrow>
                    st\<lparr>job := Settled sceneId
                         (if err_name err = ''AbortError'' then RejectedAbort else RejectedOther)\<rparr>)
           | _ \<Rightarrow> st)
      | Resume \<Rightarrow>
          (case job st of
             Settled sceneId outcome \<Rightarrow> processNext_resume sceneId outcome st
           | _ \<Rightarrow> st)
      | Timer \<Rightarrow>
          (if timers st > 0 then processNext ev (st\<lparr>timers := timers st - 1\<rparr>) else st))"

definition run :: "env \<Rightarrow> event list \<Rightarrow> sys \<Rightarrow> sys" where
  "run ev es st = foldl (\<lambda>s e. step ev e s) st es"

subsection \<open>The command /scene-create (index.js)\<close>

text \<open>
  The arguments of the command are strings; \<open>Number(...)\<close> of one is a number or
  \<open>NaN\<close>. A number is a rational: the command makes no test that it is whole. An
  infinite value fails the tests \<open>start < 0\<close> or \<open>end >= chat.length\<close> below like any
  number of a magnitude above the chat length, and is not a case of its own; \<open>i++\<close> is
  taken to be exact. The selection is the module state of scene-ui.js that
  \<open>isSelectionModeActive\<close> and \<open>getSelectionRange\<close> read; its bounds are message
  positions.
\<close>

datatype js_number = NaN | Num rat

record create_args =
  arg_start :: "js_number option"
  arg_end :: "js_number option"
  arg_prompt :: "string option"

record selection =
  selectionModeActive :: bool
  selectionStart :: "int option"
  selectionEnd :: "int option"

datatype slash_result =
    Disabled
  | InvalidIndices
  | EndOutOfRange
  | NoSelection
  | NoRangeSpecified
  | Overlap
  | Created string

definition exitSelectionMode :: selection where
  "exitSelectionMode = \<lparr>selectionModeActive = False, selectionStart = None, selectionEnd = None\<rparr>"

text \<open>
  The first half of \<open>slashSceneCreate\<close>: the range the command asks for, or the error it
  returns before it looks at the scenes.
\<close>

definition requested_range :: "bool \<Rightarrow> create_args \<Rightarrow> selection \<Rightarrow> chat \<Rightarrow> slash_result + rat \<times> rat" where
  "requested_range enabled args sel c =
     (if \<not> enabled then Inl Disabled
      else if arg_start args \<noteq> None \<and> arg_end args \<noteq> None then
        (case (arg_start args, arg_end args) of
           (Some (Num start), Some (Num end)) \<Rightarrow>
             if start < 0 \<or> end < 0 then Inl InvalidIndices
             else
               (let (start', end') = (if start > end then (end, start) else (start, end))
                in if end' \<ge> of_nat (length c) then Inl EndOutOfRange else Inr (start', end'))
         | _ \<Rightarrow> Inl InvalidIndices)
      else if selectionModeActive sel then
        (case (selectionStart sel, selectionEnd sel) of
           (Some start, Some end) \<Rightarrow> Inr (of_int start, of_int end)
         | _ \<Rightarrow> Inl NoSelection)
      else Inl NoRangeSpecified)"

text \<open>
  \<open>findOverlappingScenes\<close> and \<open>createScene\<close> both run
  \<open>for (let i = startIndex; i <= endIndex; i++)\<close> and read \<open>chat[i]\<close>. When the start is a
  whole number, \<open>i\<close> takes the whole numbers from the start up to the end. When it is
  not, no value of \<open>i\<close> is whole: \<open>chat[i]\<close> is \<open>undefined\<close> at each, \<open>getMessageScenes\<close>
  returns \<open>[]\<close> and \<open>createScene\<close> skips with \<open>continue\<close>, so both loops do what
  they do over a range without positions.
\<close>

definition loop_range :: "rat \<Rightarrow> rat \<Rightarrow> int \<times> int" where
  "loop_range start end =
     (if of_int \<lfloor>start\<rfloor> = start then (\<lfloor>start\<rfloor>, \<lfloor>end\<rfloor>) else (1, 0))"

text \<open>
  \<open>slashSceneCreate\<close>: the overlap check, then \<open>createScene\<close>. The result is the value
  the command returns, with the store, the chat, the generator and the selection as the
  command leaves them.
\<close>

definition slashSceneCreate ::
  "bool \<Rightarrow> create_args \<Rightarrow> selection \<Rightarrow> chat_metadata \<Rightarrow> chat \<Rightarrow> uuid_gen \<Rightarrow> int
     \<Rightarrow> slash_result \<times> chat_metadata \<times> chat \<times> uuid_gen \<times> selection" where
  "slashSceneCreate enabled args sel md c g now =
     (case requested_range enabled args sel c of
        Inl err \<Rightarrow> (err, md, c, g, sel)
      | Inr (start, end) \<Rightarrow>
          (case loop_range start end of
             (lo, hi) \<Rightarrow>
               if length (findOverlappingScenes md c lo hi) > 0 then (Overlap, md, c, g, sel)
               else
                 (let prompt = (case arg_prompt args of
                                  None \<Rightarrow> None
                                | Some p \<Rightarrow> if trim p \<noteq> [] then Some (trim p) else None)
                  in case createScene md c lo hi g prompt now of
                       (sc, md', c', g') \<Rightarrow>
                         (Created (scene_id sc), md', c', g',
                          if selectionModeActive sel then exitSelectionMode else sel))))"

subsection \<open>Notions used to state that scenes do not overlap\<close>

text \<open>
  The positions a scene resolves to, the scenes of the store that claim the message at a
  position (its identifier is one of their sources), and the two conditions on a store
  and a chat: no two scenes resolve to a common position, and every message carries the
  tag of each scene that claims it.
\<close>

definition scene_positions :: "chat \<Rightarrow> scene \<Rightarrow> int list" where
  "scene_positions c sc =
     filter (\<lambda>p. p \<noteq> - 1) (map (\<lambda>u. findMessageIndexByUUID c u None) (sourceMessageUUIDs sc))"

fun no_overlap_list :: "chat \<Rightarrow> scene list \<Rightarrow> bool" where
  "no_overlap_list c [] = True"
| "no_overlap_list c (sc # rest) =
     (list_all (\<lambda>sc'. set (scene_positions c sc) \<inter> set (scene_positions c sc') = {}) rest \<and>
      no_overlap_list c rest)"

definition no_overlap :: "chat_metadata \<Rightarrow> chat \<Rightarrow> bool" where
  "no_overlap md c = no_overlap_list c (map snd (scenes (getSceneFoldData md)))"

definition claimed_by :: "chat_metadata \<Rightarrow> chat \<Rightarrow> int \<Rightarrow> string list" where
  "claimed_by md c i =
     map fst (filter (\<lambda>(k, sc). case msg_uuid (chat_at c i) of
                                  None \<Rightarrow> False
                                | Some u \<Rightarrow> u \<in> set (sourceMessageUUIDs sc))
                (scenes (getSceneFoldData md)))"

definition tags_cover_claims :: "chat_metadata \<Rightarrow> chat \<Rightarrow> bool" where
  "tags_cover_claims md c =
     list_all (\<lambda>i. set (claimed_by md c (int i)) \<subseteq> set (getMessageScenes c (int i))) [0..<length c]"

subsection \<open>Notions used to state the properties\<close>

text \<open>
  An identifier is live in a chat when some message carries it; this is what every
  caller tests with \<open>findMessageIndexByUUID(...) !== -1\<close> (lemma \<open>find_live\<close> below).
\<close>

definition live :: "chat \<Rightarrow> string \<Rightarrow> bool" where
  "live c u = (Some u \<in> set (map msg_uuid c))"

definition validSources_of :: "chat \<Rightarrow> scene \<Rightarrow> string list" where
  "validSources_of c sc = filter (live c) (sourceMessageUUIDs sc)"

definition summary_lost :: "chat \<Rightarrow> scene \<Rightarrow> bool" where
  "summary_lost c sc =
     (case summaryMessageUUID sc of None \<Rightarrow> False | Some su \<Rightarrow> su \<noteq> [] \<and> \<not> live c su)"

text \<open>What deletion reconciliation leaves of a scene that keeps at least one source.\<close>

definition scene_after :: "chat \<Rightarrow> scene \<Rightarrow> scene" where
  "scene_after c sc =
     (if summary_lost c sc
      then sc\<lparr>sourceMessageUUIDs := validSources_of c sc, summaryMessageUUID := None,
              status := Defined, folded := False\<rparr>
      else sc\<lparr>sourceMessageUUIDs := validSources_of c sc\<rparr>)"

text \<open>No two messages of the chat carry the same (truthy) identifier.\<close>

definition unique_uuids :: "chat \<Rightarrow> bool" where
  "unique_uuids c = distinct (filter truthy (map msg_uuid c))"

subsection \<open>Example chats and stores\<close>

definition msg_with :: "string option \<Rightarrow> string list option \<Rightarrow> message option" where
  "msg_with u ts = Some \<lparr>msg_name = ''Character'', is_user = False, is_system = False, mes = ''text'',
     extra = Some \<lparr>extra_type = None, scene_fold_uuid = u, scene_fold_scenes = ts,
       scene_fold_role = None, scene_fold_scene_id = None\<rparr>\<rparr>"

definition scene_with :: "string \<Rightarrow> string list \<Rightarrow> string option \<Rightarrow> status \<Rightarrow> scene" where
  "scene_with sid srcs summ st =
     \<lparr>scene_id = sid, summaryMessageUUID = summ, sourceMessageUUIDs = srcs, parentSceneId = None,
      status = st, customPrompt = None, folded = (st = Completed), lastError = None,
      createdAt = 0, stale = False, needsRetry = False\<rparr>"

definition store_of :: "(string \<times> scene) list \<Rightarrow> chat_metadata" where
  "store_of ss = \<lparr>scene_fold = Some \<lparr>scenes = ss, defaultPrompt = getDefaultSummarizationPrompt\<rparr>\<rparr>"

text \<open>A message was duplicated by the host: two messages carry the identifier \<open>a\<close>.\<close>

definition chat_dup :: chat where
  "chat_dup = [msg_with (Some ''a'') None, msg_with (Some ''a'') None]"

text \<open>
  Scene \<open>s1\<close> had the sources \<open>a, b, c\<close> and the host deleted \<open>b\<close>; scene \<open>s2\<close> lost its only
  source \<open>x\<close>; scene \<open>s3\<close> is completed and the host deleted its summary message \<open>m\<close>.
\<close>

definition hidden :: "message option \<Rightarrow> message option" where
  "hidden m = map_option (\<lambda>msg. msg\<lparr>is_system := True\<rparr>) m"

definition chat_del :: chat where
  "chat_del = [msg_with (Some ''a'') (Some [''s1'']), msg_with (Some ''c'') (Some [''s1'']),
               hidden (msg_with (Some ''d'') (Some [''s3'']))]"

definition chat_del_after :: chat where
  "chat_del_after = [msg_with (Some ''a'') (Some [''s1'']), msg_with (Some ''c'') (Some [''s1'']),
               msg_with (Some ''d'') (Some [''s3''])]"

definition store_del :: chat_metadata where
  "store_del = store_of [(''s1'', scene_with ''s1'' [''a'', ''b'', ''c''] None Defined),
                         (''s2'', scene_with ''s2'' [''x''] None Defined),
                         (''s3'', scene_with ''s3'' [''d''] (Some ''m'') Completed)]"

definition store_del_after :: chat_metadata where
  "store_del_after = store_of [(''s1'', scene_with ''s1'' [''a'', ''c''] None Defined),
                               (''s3'', scene_with ''s3'' [''d''] None Defined)]"

definition result_del :: reconcile_result where
  "result_del = \<lparr>modifiedScenes = [''s1'', ''s3''], deletedScenes = [''s2''], summaryLost = [''s3'']\<rparr>"

text \<open>A generator for the examples: \<open>x\<close>, \<open>xx\<close>, \<open>xxx\<close>, ...\<close>

definition gen_x :: uuid_gen where
  "gen_x n = replicate (Suc n) CHR ''x''"

text \<open>
  Three scenes \<open>S1\<close>, \<open>S2\<close>, \<open>S3\<close> over one message each, an idle queue, and a host
  whose settings allow two retries.
\<close>

definition queue_idle :: queue where
  "queue_idle = \<lparr>pending = [], activeId = None, activeAbort = None, processing = False,
     batchTotal = 0, batchDone = 0\<rparr>"

definition chat_three :: chat where
  "chat_three = [msg_with (Some ''a'') (Some [''S1'']), msg_with (Some ''b'') (Some [''S2'']),
                 msg_with (Some ''c'') (Some [''S3''])]"

definition store_three_with :: "status \<Rightarrow> status \<Rightarrow> status \<Rightarrow> string option \<Rightarrow> chat_metadata" where
  "store_three_with s1 s2 s3 err =
     store_of [(''S1'', (scene_with ''S1'' [''a''] None Defined)\<lparr>status := s1, lastError := err\<rparr>),
               (''S2'', (scene_with ''S2'' [''b''] None Defined)\<lparr>status := s2\<rparr>),
               (''S3'', (scene_with ''S3'' [''c''] None Defined)\<lparr>status := s3\<rparr>)]"

definition sys_three :: sys where
  "sys_three = \<lparr>q = queue_idle, store = store_three_with Defined Defined Defined None,
     msgs = chat_three, uuidv4 = gen_x, job = Idle, timers = 0\<rparr>"

definition env_two_retries :: env where
  "env_two_retries = \<lparr>has_generateRaw = True, maxRetries = Some 2\<rparr>"

text \<open>The state once \<open>S1\<close> is enqueued and its first call of \<open>generateRaw\<close> is in flight, with \<open>ps\<close> pending.\<close>

definition sys_three_active :: "string list \<Rightarrow> status \<Rightarrow> sys" where
  "sys_three_active ps st23 =
     \<lparr>q = \<lparr>pending = ps, activeId = Some ''S1'', activeAbort = Some False, processing = True,
            batchTotal = Suc (length ps), batchDone = 0\<rparr>,
      store = store_three_with Summarizing st23 st23 None, msgs = chat_three, uuidv4 = gen_x,
      job = Generating ''S1'' 1 3 [0], timers = 0\<rparr>"

definition rate_limit_error :: js_error where
  "rate_limit_error = \<lparr>err_name = ''Error'', err_message = ''Rate limit exceeded''\<rparr>"

definition http_429_error :: js_error where
  "http_429_error = \<lparr>err_name = ''Error'', err_message = ''HTTP 429 Too Many Requests''\<rparr>"

subsection \<open>Notions used to state the invariant of the queue\<close>

text \<open>
  The scenes with status \<open>summarizing\<close>, the scene a worker in flight belongs to, and
  the scene whose call of \<open>generateRaw\<close> is in flight. \<open>queue_start\<close> is a freshly built
  queue over a store in which no scene is \<open>summarizing\<close> (a chat load resets such
  scenes); \<open>queue_inv\<close> is the invariant the step function keeps.
\<close>

definition summarizing_scenes :: "sys \<Rightarrow> string list" where
  "summarizing_scenes st =
     map fst (filter (\<lambda>(k, sc). status sc = Summarizing) (scenes (getSceneFoldData (store st))))"

fun job_scene :: "worker \<Rightarrow> string option" where
  "job_scene Idle = None"
| "job_scene (RetrySaving k) = Some k"
| "job_scene (Generating k attempt maxAttempts sourceIndices) = Some k"
| "job_scene (Saving k) = Some k"
| "job_scene (Settled k outcome) = Some k"

fun generating :: "worker \<Rightarrow> string option" where
  "generating (Generating k attempt maxAttempts sourceIndices) = Some k"
| "generating w = None"

definition status_of :: "sys \<Rightarrow> string \<Rightarrow> status option" where
  "status_of st k = map_option status (getScene (store st) k)"

definition store_keys :: "sys \<Rightarrow> string list" where
  "store_keys st = map fst (scenes (getSceneFoldData (store st)))"

definition queue_start :: "sys \<Rightarrow> bool" where
  "queue_start st = (q st = queue_idle \<and> job st = Idle \<and> timers st = 0 \<and>
     distinct (store_keys st) \<and> summarizing_scenes st = [])"

definition queue_inv :: "sys \<Rightarrow> bool" where
  "queue_inv st =
     (distinct (store_keys st) \<and> distinct (pending (q st)) \<and>
      (\<forall>k. job_scene (job st) = Some k \<longrightarrow> activeId (q st) = Some k) \<and>
      (job st \<noteq> Idle \<longrightarrow> processing (q st) \<and> timers st = 0) \<and>
      (timers st > 0 \<longrightarrow> processing (q st)) \<and> timers st \<le> 1 \<and>
      (\<forall>k. activeId (q st) = Some k \<longrightarrow> k \<notin> set (pending (q st))) \<and>
      (\<forall>k. status_of st k = Some Summarizing \<longrightarrow> generating (job st) = Some k) \<and>
      (\<forall>k \<in> set (pending (q st)). status_of st k = Some Queued \<or> status_of st k = None))"

text \<open>
  The state in which code of the worker for scene \<open>k\<close> runs, what such code may change
  (\<open>touches\<close>: the scene \<open>k\<close> only), and where it stops (\<open>lands\<close>).
\<close>

definition ready :: "string \<Rightarrow> sys \<Rightarrow> bool" where
  "ready k st =
     (distinct (store_keys st) \<and> distinct (pending (q st)) \<and>
      activeId (q st) = Some k \<and> processing (q st) \<and> timers st = 0 \<and>
      k \<notin> set (pending (q st)) \<and>
      (\<forall>k'. k' \<noteq> k \<longrightarrow> status_of st k' \<noteq> Some Summarizing) \<and>
      (\<forall>k' \<in> set (pending (q st)). status_of st k' = Some Queued \<or> status_of st k' = None))"

definition touches :: "string \<Rightarrow> sys \<Rightarrow> sys \<Rightarrow> bool" where
  "touches k st st' =
     (q st' = q st \<and> timers st' = timers st \<and> store_keys st' = store_keys st \<and>
      (\<forall>k'. k' \<noteq> k \<longrightarrow> status_of st' k' = status_of st k'))"

definition lands :: "string \<Rightarrow> sys \<Rightarrow> bool" where
  "lands k st' =
     (job_scene (job st') = Some k \<and>
      (status_of st' k = Some Summarizing \<longrightarrow> generating (job st') = Some k))"

text \<open>Two scenes are apart in a chat when they resolve to no common position.\<close>

definition apart :: "chat \<Rightarrow> scene \<Rightarrow> scene \<Rightarrow> bool" where
  "apart c sc sc' = (set (scene_positions c sc) \<inter> set (scene_positions c sc') = {})"

text \<open>
  Seven messages with identifiers \<open>m0\<close>..\<open>m6\<close>; the same chat once a scene \<open>x\<close> was
  created over the positions 3 to 5, and the store with that scene.
\<close>

definition chat_seven :: chat where
  "chat_seven = map (\<lambda>u. msg_with (Some u) None) [''m0'', ''m1'', ''m2'', ''m3'', ''m4'', ''m5'', ''m6'']"

definition tagged :: "string \<Rightarrow> message option \<Rightarrow> message option" where
  "tagged k m = map_option (tag_source k) m"

definition chat_seven_scene :: chat where
  "chat_seven_scene = [msg_with (Some ''m0'') None, msg_with (Some ''m1'') None, msg_with (Some ''m2'') None,
     tagged ''x'' (msg_with (Some ''m3'') None), tagged ''x'' (msg_with (Some ''m4'') None),
     tagged ''x'' (msg_with (Some ''m5'') None), msg_with (Some ''m6'') None]"

definition store_seven_scene :: chat_metadata where
  "store_seven_scene = store_of [(''x'', (scene_with ''x'' [''m3'', ''m4'', ''m5''] None Defined)\<lparr>createdAt := 7\<rparr>)]"

definition range_args :: "rat \<Rightarrow> rat \<Rightarrow> create_args" where
  "range_args a b = \<lparr>arg_start = Some (Num a), arg_end = Some (Num b), arg_prompt = None\<rparr>"

definition no_selection :: selection where
  "no_selection = \<lparr>selectionModeActive = False, selectionStart = None, selectionEnd = None\<rparr>"

subsection \<open>Duplicates and their repair\<close>

text \<open>
  The positions that carry an identifier, in ascending order; a position is a later
  occurrence when its message carries a truthy identifier that an earlier message
  carries too.
\<close>

definition positions_of :: "chat \<Rightarrow> string \<Rightarrow> nat list" where
  "positions_of c u = filter (\<lambda>i. msg_uuid (c ! i) = Some u) [0..<length c]"

definition later_occurrence :: "chat \<Rightarrow> nat \<Rightarrow> bool" where
  "later_occurrence c i =
     (truthy (msg_uuid (c ! i)) \<and> msg_uuid (c ! i) \<in> set (take i (map msg_uuid c)))"

text \<open>
  The repairs \<open>reconcileDuplicatedMessages\<close> makes, in the order of its two nested
  loops: for each identifier of \<open>uuidOccurrences\<close>, every position but the first.
\<close>

definition repairs :: "chat \<Rightarrow> (string \<times> nat) list" where
  "repairs c = concat (map (\<lambda>(u, idxs). map (Pair u) (drop 1 idxs)) (uuidOccurrences c))"

text \<open>
  What the loop that builds \<open>uuidOccurrences\<close> has established after the messages
  \<open>pre\<close>.
\<close>

definition occ_inv :: "chat \<Rightarrow> (string \<times> nat list) list \<Rightarrow> bool" where
  "occ_inv pre occ =
     (distinct (map fst occ) \<and>
      (\<forall>(u, idxs) \<in> set occ. u \<noteq> [] \<and> idxs = positions_of pre u \<and> idxs \<noteq> []) \<and>
      (\<forall>u. u \<noteq> [] \<and> Some u \<in> set (map msg_uuid pre) \<longrightarrow> u \<in> fst ` set occ))"

text \<open>
  One repair as a function of a pair, and what the repairs do to the source list of the
  one scene \<open>K\<close>: the \<open>k\<close>-th repair inserts the \<open>k\<close>-th minted identifier once for every
  occurrence of \<open>K\<close> among the tags of the repaired message.
\<close>

definition fixd ::
  "(string \<times> scene) list \<times> chat \<times> uuid_gen \<times> nat \<Rightarrow> string \<times> nat
     \<Rightarrow> (string \<times> scene) list \<times> chat \<times> uuid_gen \<times> nat" where
  "fixd st e = fix_duplicate (fst e) st (snd e)"

definition src_step :: "chat \<Rightarrow> uuid_gen \<Rightarrow> string \<Rightarrow> string list \<Rightarrow> nat \<times> string \<times> nat \<Rightarrow> string list" where
  "src_step c g K xs e =
     (case e of (k, u, i) \<Rightarrow> (insert_after u (g k) ^^ count_list (getMessageScenes c (int i)) K) xs)"

text \<open>
  The identifiers minted for duplicates of \<open>v\<close> that land in scene \<open>K\<close>, in the order
  they are minted, and those minted for duplicates of identifiers outside the list
  \<open>S\<close>.
\<close>

definition minted_block :: "chat \<Rightarrow> uuid_gen \<Rightarrow> string \<Rightarrow> string \<Rightarrow> (nat \<times> string \<times> nat) list \<Rightarrow> string list" where
  "minted_block c g K v E =
     concat (map (\<lambda>(k, u, i). if u = v then replicate (count_list (getMessageScenes c (int i)) K) (g k) else []) E)"

definition minted_tail :: "chat \<Rightarrow> uuid_gen \<Rightarrow> string \<Rightarrow> string list \<Rightarrow> (nat \<times> string \<times> nat) list \<Rightarrow> string list" where
  "minted_tail c g K S E =
     concat (map (\<lambda>(k, u, i). if u \<in> set S then [] else replicate (count_list (getMessageScenes c (int i)) K) (g k)) E)"

text \<open>
  The same two lists read off the chat after the call: the new identifiers of the later
  occurrences of \<open>u\<close> that are tagged with \<open>K\<close>, latest repair first, and the new
  identifiers of tagged duplicates whose original is not among the sources \<open>S\<close>.
\<close>

definition uuid_text :: "message option \<Rightarrow> string" where
  "uuid_text m = (case msg_uuid m of None \<Rightarrow> [] | Some u \<Rightarrow> u)"

definition minted_after :: "chat \<Rightarrow> chat \<Rightarrow> string \<Rightarrow> string \<Rightarrow> string list" where
  "minted_after c c' K u =
     concat (map (\<lambda>(v, i). if v = u
                    then replicate (count_list (getMessageScenes c (int i)) K) (uuid_text (c' ! i)) else [])
               (rev (repairs c)))"

definition appended :: "chat \<Rightarrow> chat \<Rightarrow> string \<Rightarrow> string list \<Rightarrow> string list" where
  "appended c c' K S =
     concat (map (\<lambda>(v, i). if v \<in> set S then []
                    else replicate (count_list (getMessageScenes c (int i)) K) (uuid_text (c' ! i)))
               (repairs c))"

text \<open>
  A list in which every element is followed, where it first occurs, by the list \<open>f\<close>
  gives for it; \<open>seen\<close> holds the elements already passed.
\<close>

fun after_first :: "(string \<Rightarrow> string list) \<Rightarrow> string list \<Rightarrow> string list \<Rightarrow> string list" where
  "after_first f seen [] = []"
| "after_first f seen (v # S) =
     (if v \<in> set seen then [v] else v # f v) @ after_first f (v # seen) S"

definition behind_first :: "(string \<Rightarrow> string list) \<Rightarrow> string list \<Rightarrow> string list" where
  "behind_first f S = after_first f [] S"

text \<open>
  A chat in which \<open>a\<close> occurs three times and \<open>b\<close> twice, with a store of two scenes,
  and the chat and the store the call leaves.
\<close>

definition chat_d :: chat where
  "chat_d = [msg_with (Some ''a'') (Some [''s1'']), msg_with (Some ''b'') (Some [''s1'']),
             msg_with (Some ''a'') (Some [''s1'']), msg_with (Some ''b'') (Some [''s1'', ''zz'']),
             msg_with (Some ''a'') (Some [''s1'', ''s2'']), msg_with None None,
             msg_with (Some ''q'') (Some [''s2''])]"

definition store_d :: chat_metadata where
  "store_d = store_of [(''s1'', scene_with ''s1'' [''a'', ''b''] None Defined),
                       (''s2'', scene_with ''s2'' [''q''] None Defined)]"

definition chat_d_after :: chat where
  "chat_d_after = [msg_with (Some ''a'') (Some [''s1'']), msg_with (Some ''b'') (Some [''s1'']),
             msg_with (Some ''x'') (Some [''s1'']), msg_with (Some ''xxx'') (Some [''s1'', ''zz'']),
             msg_with (Some ''xx'') (Some [''s1'', ''s2'']), msg_with None None,
             msg_with (Some ''q'') (Some [''s2''])]"

definition store_d_after :: chat_metadata where
  "store_d_after = store_of [(''s1'', scene_with ''s1'' [''a'', ''xx'', ''x'', ''b'', ''xxx''] None Defined),
                       (''s2'', scene_with ''s2'' [''q'', ''xx''] None Defined)]"

text \<open>
  A duplicate that does not carry the tag of the scene its original belongs to.
\<close>

definition chat_untagged :: chat where
  "chat_untagged = [msg_with (Some ''a'') (Some [''s1'']), msg_with (Some ''a'') None]"

definition store_untagged :: chat_metadata where
  "store_untagged = store_of [(''s1'', scene_with ''s1'' [''a''] None Defined)]"

section \<open>Properties\<close>

subsection \<open>Resolving identifiers\<close>

lemma linear_scan_ge: "linear_scan c u i \<noteq> - 1 \<longleftrightarrow> Some u \<in> set (map msg_uuid c)"
  by (induction c u i rule: linear_scan.induct) auto

lemma chat_at_uuid_live: "msg_uuid (chat_at c i) = Some u \<Longrightarrow> Some u \<in> set (map msg_uuid c)"
  by (cases "0 \<le> i \<and> nat i < length c")
    (auto simp: chat_at_def msg_uuid_def[of None] intro!: image_eqI[where x="c ! nat i"])

text \<open>With any cache, stale or not, the resolver finds an identifier exactly when it is live.\<close>

lemma find_live: "findMessageIndexByUUID c u cache \<noteq> - 1 \<longleftrightarrow> Some u \<in> set (map msg_uuid c)"
  using chat_at_uuid_live[of c _ u]
  by (auto simp: findMessageIndexByUUID_def linear_scan_ge split: option.splits)

lemma find_dead: "findMessageIndexByUUID c u cache = - 1 \<longleftrightarrow> Some u \<notin> set (map msg_uuid c)"
  using find_live[of c u cache] by blast

lemma linear_scan_pos:
  "linear_scan c u i \<noteq> - 1 \<Longrightarrow>
     int i \<le> linear_scan c u i \<and> msg_uuid (chat_at c (linear_scan c u i - int i)) = Some u"
proof (induction c u i rule: linear_scan.induct)
  case (1 uuid i)
  then show ?case by simp
next
  case (2 m ms uuid i)
  show ?case
  proof (cases "msg_uuid m = Some uuid")
    case True
    then show ?thesis by (simp add: chat_at_def)
  next
    case False
    with 2 have ih: "int (Suc i) \<le> linear_scan ms uuid (Suc i)"
      "msg_uuid (chat_at ms (linear_scan ms uuid (Suc i) - int (Suc i))) = Some uuid"
      by simp_all
    define r where "r = linear_scan ms uuid (Suc i) - int (Suc i)"
    have r0: "0 \<le> r" using ih(1) by (simp add: r_def)
    have ih2: "msg_uuid (chat_at ms r) = Some uuid" using ih(2) unfolding r_def .
    have "chat_at ms r \<noteq> None" using ih2 by (cases "chat_at ms r") (simp_all add: msg_uuid_def)
    then have rl: "nat r < length ms" by (auto simp: chat_at_def split: if_splits)
    have "chat_at (m # ms) (r + 1) = chat_at ms r"
      using r0 rl by (simp add: chat_at_def nat_add_distrib)
    moreover have "linear_scan (m # ms) uuid i - int i = r + 1"
      using False by (simp add: r_def)
    ultimately show ?thesis using False ih(1) ih2 by simp
  qed
qed

lemma build_absent:
  "u = [] \<or> Some u \<notin> set (map msg_uuid c) \<Longrightarrow> buildUUIDIndex_from c i index u = index u"
proof (induction c arbitrary: i index)
  case Nil
  then show ?case by simp
next
  case (Cons m ms)
  then show ?case by (cases "msg_uuid m") auto
qed

lemma build_unique:
  "unique_uuids c \<Longrightarrow> u \<noteq> [] \<Longrightarrow> Some u \<in> set (map msg_uuid c) \<Longrightarrow>
   buildUUIDIndex_from c i index u = Some (nat (linear_scan c u i))"
proof (induction c arbitrary: i index)
  case Nil
  then show ?case by simp
next
  case (Cons m ms)
  have uq: "unique_uuids ms"
    using Cons.prems(1) by (auto simp: unique_uuids_def split: if_splits)
  show ?case
  proof (cases "msg_uuid m = Some u")
    case True
    then have "truthy (msg_uuid m)" using Cons.prems(2) by (simp add: truthy_def)
    with Cons.prems(1) True have "Some u \<notin> set (map msg_uuid ms)"
      by (auto simp: unique_uuids_def)
    with True Cons.prems(2) show ?thesis by (simp add: build_absent)
  next
    case False
    with Cons.prems(3) have "Some u \<in> set (map msg_uuid ms)" by auto
    from Cons.IH[OF uq Cons.prems(2) this] False show ?thesis
      by (cases "msg_uuid m") simp_all
  qed
qed

text \<open>
  C7, as stated, at the chat \<open>chat_dup\<close>: the index keeps the last position of a
  duplicated identifier (\<open>index.set\<close> overwrites), the linear scan returns the first.
\<close>

theorem C7_cache_differs_on_duplicates:
  "findMessageIndexByUUID chat_dup ''a'' (Some (buildUUIDIndex chat_dup)) = 1 \<and>
   findMessageIndexByUUID chat_dup ''a'' None = 0"
  by (simp add: findMessageIndexByUUID_def buildUUIDIndex_def chat_dup_def msg_with_def
        msg_uuid_def chat_at_def)

text \<open>
  C7, amended: for every chat in which no two messages carry the same identifier, and
  every identifier, resolving with the index built by \<open>buildUUIDIndex\<close> returns the same
  position as resolving with no cache.
\<close>

theorem C7_cache_agrees_when_unique:
  assumes "unique_uuids c"
  shows "findMessageIndexByUUID c u (Some (buildUUIDIndex c)) = findMessageIndexByUUID c u None"
proof (cases "u \<noteq> [] \<and> Some u \<in> set (map msg_uuid c)")
  case True
  then have ne: "linear_scan c u 0 \<noteq> - 1" by (simp add: linear_scan_ge)
  from linear_scan_pos[OF ne] have p: "0 \<le> linear_scan c u 0"
    "msg_uuid (chat_at c (linear_scan c u 0)) = Some u" by simp_all
  have "buildUUIDIndex c u = Some (nat (linear_scan c u 0))"
    using True by (simp add: buildUUIDIndex_def build_unique[OF assms])
  then show ?thesis using p by (simp add: findMessageIndexByUUID_def)
next
  case False
  then have "buildUUIDIndex c u = None"
    by (simp add: buildUUIDIndex_def build_absent)
  then show ?thesis by (simp add: findMessageIndexByUUID_def)
qed

theorem C7_cache_agrees_when_unique_witness:
  "unique_uuids chat_del \<and>
   findMessageIndexByUUID chat_del ''c'' (Some (buildUUIDIndex chat_del)) = 1 \<and>
   findMessageIndexByUUID chat_del ''c'' None = 1"
proof -
  have u: "unique_uuids chat_del"
    by (simp add: unique_uuids_def chat_del_def msg_with_def msg_uuid_def truthy_def hidden_def)
  have "findMessageIndexByUUID chat_del ''c'' None = 1"
    by (simp add: findMessageIndexByUUID_def chat_del_def msg_with_def msg_uuid_def hidden_def)
  with C7_cache_agrees_when_unique[OF u, of "''c''"] u show ?thesis by simp
qed

subsection \<open>Scene creation over a range without messages\<close>

lemma createScene_step_skip:
  "(\<And>i. i \<in> set js \<Longrightarrow> chat_at c i = None) \<Longrightarrow>
     foldl (createScene_step sid) (c, srcs, g) js = (c, srcs, g)"
  by (induction js) (simp_all add: createScene_step_def)

text \<open>
  C10: \<open>createScene\<close> validates neither bounds nor emptiness. When no position of
  \<open>[startIndex, endIndex]\<close> holds a message, it still mints a scene id (the first
  string of the generator), stores a record with no sources and status \<open>defined\<close> under
  that id, leaves the chat as it is, and returns the record.
\<close>

theorem C10_create_over_empty_range:
  assumes "\<forall>i. startIndex \<le> i \<and> i \<le> endIndex \<longrightarrow> chat_at c i = None"
  shows "createScene md c startIndex endIndex g customPrompt_arg now =
           (\<lparr>scene_id = g 0, summaryMessageUUID = None, sourceMessageUUIDs = [],
             parentSceneId = None, status = Defined,
             customPrompt = (if truthy customPrompt_arg then customPrompt_arg else None),
             folded = False, lastError = None, createdAt = now, stale = False,
             needsRetry = False\<rparr>,
            put_scenes md (AList.update (g 0)
               \<lparr>scene_id = g 0, summaryMessageUUID = None, sourceMessageUUIDs = [],
                parentSceneId = None, status = Defined,
                customPrompt = (if truthy customPrompt_arg then customPrompt_arg else None),
                folded = False, lastError = None, createdAt = now, stale = False,
                needsRetry = False\<rparr> (scenes (getSceneFoldData md))),
            c, \<lambda>n. g (Suc n))"
proof -
  have "foldl (createScene_step (g 0)) (c, [], \<lambda>n. g (Suc n)) [startIndex..endIndex]
          = (c, [], \<lambda>n. g (Suc n))"
    by (rule createScene_step_skip) (use assms in auto)
  then show ?thesis
    by (simp add: createScene_def mint_def Let_def)
qed

theorem C10_create_over_empty_range_witness:
  "createScene (store_of []) chat_dup 5 7 gen_x None 42 =
     (\<lparr>scene_id = ''x'', summaryMessageUUID = None, sourceMessageUUIDs = [],
       parentSceneId = None, status = Defined, customPrompt = None,
       folded = False, lastError = None, createdAt = 42, stale = False, needsRetry = False\<rparr>,
      store_of [(''x'', \<lparr>scene_id = ''x'', summaryMessageUUID = None, sourceMessageUUIDs = [],
       parentSceneId = None, status = Defined, customPrompt = None,
       folded = False, lastError = None, createdAt = 42, stale = False, needsRetry = False\<rparr>)],
      chat_dup, \<lambda>n. gen_x (Suc n))"
proof -
  have h: "\<forall>i. (5::int) \<le> i \<and> i \<le> 7 \<longrightarrow> chat_at chat_dup i = None"
    by (auto simp: chat_at_def chat_dup_def)
  show ?thesis
    using C10_create_over_empty_range[OF h, of "store_of []" gen_x None 42]
    by (simp add: gen_x_def truthy_def store_of_def put_scenes_def getSceneFoldData_def)
qed

subsection \<open>Deletion reconciliation\<close>

lemma update_msg_uuids:
  assumes "\<And>m. msg_uuid (Some (f m)) = msg_uuid (Some m)"
  shows "map msg_uuid (update_msg c i f) = map msg_uuid c"
proof (cases "chat_at c i")
  case None
  then show ?thesis by (simp add: update_msg_def)
next
  case (Some m)
  then have r: "0 \<le> i" "nat i < length c" "c ! nat i = Some m"
    by (auto simp: chat_at_def split: if_splits)
  have "map msg_uuid (c[nat i := Some (f m)]) = (map msg_uuid c)[nat i := msg_uuid (Some m)]"
    by (simp add: map_update assms)
  also have "\<dots> = map msg_uuid c"
    using r by (metis list_update_id map_update)
  finally show ?thesis using Some by (simp add: update_msg_def)
qed

lemma clear_summary_tags_uuid: "msg_uuid (Some (clear_summary_tags m)) = msg_uuid (Some m)"
  by (cases "extra m") (simp_all add: msg_uuid_def clear_summary_tags_def)

lemma unhide_uuid: "msg_uuid (Some (m\<lparr>is_system := False\<rparr>)) = msg_uuid (Some m)"
  by (simp add: msg_uuid_def)

lemma unhide_sources_uuids: "map msg_uuid (unhide_sources c idx us) = map msg_uuid c"
  unfolding unhide_sources_def
  by (induction us arbitrary: c) (simp_all add: Let_def update_msg_uuids unhide_uuid)

lemma filter_length_same: "length (filter P xs) = length xs \<Longrightarrow> filter P xs = xs"
  by (metis filter_True length_filter_less less_irrefl_nat)

lemma summary_index_lost: "summary_index c idx sc = Some (- 1) \<longleftrightarrow> summary_lost c sc"
  by (auto simp: summary_index_def summary_lost_def live_def find_dead split: option.splits)

lemma summary_index_srcs [simp]:
  "summary_index c idx (sc\<lparr>sourceMessageUUIDs := xs\<rparr>) = summary_index c idx sc"
  by (simp add: summary_index_def)

lemma summary_lost_srcs [simp]: "summary_lost c (sc\<lparr>sourceMessageUUIDs := xs\<rparr>) = summary_lost c sc"
  by (simp add: summary_lost_def)

lemma valid_filter:
  "filter (\<lambda>uuid. findMessageIndexByUUID c uuid cache \<noteq> - 1) xs = filter (live c) xs"
  by (rule filter_cong) (auto simp: find_live live_def)

text \<open>The loop body on a scene that lost every source, and on a scene that keeps one.\<close>

lemma reconcile_scene_dead:
  assumes "validSources_of c sc = []"
  shows "\<exists>c1. reconcile_scene k sc idx c res = (None, c1, res\<lparr>deletedScenes := deletedScenes res @ [k]\<rparr>)
           \<and> map msg_uuid c1 = map msg_uuid c"
  using assms
  by (auto simp: reconcile_scene_def Let_def valid_filter validSources_of_def
        update_msg_uuids clear_summary_tags_uuid split: option.splits)

lemma reconcile_scene_alive:
  assumes "validSources_of c sc \<noteq> []"
  shows "\<exists>c1. reconcile_scene k sc idx c res =
           (Some (scene_after c sc), c1,
            (let res1 = (if summary_lost c sc then res\<lparr>summaryLost := summaryLost res @ [k]\<rparr> else res)
             in if (validSources_of c sc \<noteq> sourceMessageUUIDs sc \<or> summary_lost c sc)
                    \<and> k \<notin> set (deletedScenes res1)
                then res1\<lparr>modifiedScenes := modifiedScenes res1 @ [k]\<rparr> else res1))
           \<and> map msg_uuid c1 = map msg_uuid c
           \<and> (\<not> summary_lost c sc \<longrightarrow> c1 = c)"
proof -
  let ?v = "filter (live c) (sourceMessageUUIDs sc)"
  have ne: "?v \<noteq> []" using assms by (simp add: validSources_of_def)
  have len: "(length ?v \<noteq> length (sourceMessageUUIDs sc)) = (?v \<noteq> sourceMessageUUIDs sc)"
    using filter_length_same by fastforce
  have sc1: "(if length ?v \<noteq> length (sourceMessageUUIDs sc) then sc\<lparr>sourceMessageUUIDs := ?v\<rparr> else sc)
      = sc\<lparr>sourceMessageUUIDs := ?v\<rparr>"
    using len by auto
  show ?thesis
    unfolding reconcile_scene_def valid_filter Let_def sc1
    using ne
    by (simp add: summary_index_lost scene_after_def validSources_of_def len unhide_sources_uuids)
qed

lemma live_cong:
  assumes "map msg_uuid c1 = map msg_uuid c"
  shows "live c1 = live c"
  unfolding live_def assms by (rule refl)

lemma validSources_cong:
  assumes "map msg_uuid c1 = map msg_uuid c"
  shows "validSources_of c1 = validSources_of c"
  unfolding validSources_of_def live_cong[OF assms] by (rule refl)

lemma summary_lost_cong:
  assumes "map msg_uuid c1 = map msg_uuid c"
  shows "summary_lost c1 = summary_lost c"
  unfolding summary_lost_def live_cong[OF assms] by (rule refl)

lemma scene_after_cong:
  assumes "map msg_uuid c1 = map msg_uuid c"
  shows "scene_after c1 = scene_after c"
  unfolding scene_after_def summary_lost_cong[OF assms] validSources_cong[OF assms] by (rule refl)

text \<open>
  The store after the loop: the entries that keep a source, in their order, each
  replaced by \<open>scene_after\<close>; no message gains or loses an identifier.
\<close>

lemma reconcile_entries_store:
  "reconcile_entries es idx c res = (es', c', res') \<Longrightarrow>
     map msg_uuid c' = map msg_uuid c \<and>
     es' = map (\<lambda>(k, sc). (k, scene_after c sc)) (filter (\<lambda>(k, sc). validSources_of c sc \<noteq> []) es)"
proof (induction es arbitrary: c res es' c' res')
  case Nil
  then show ?case by simp
next
  case (Cons e es)
  obtain k sc where e: "e = (k, sc)" by (cases e)
  show ?case
  proof (cases "validSources_of c sc = []")
    case True
    from reconcile_scene_dead[OF True, of k idx res] obtain c1 where
      s: "reconcile_scene k sc idx c res = (None, c1, res\<lparr>deletedScenes := deletedScenes res @ [k]\<rparr>)"
      and u: "map msg_uuid c1 = map msg_uuid c" by blast
    from Cons.prems
    have "reconcile_entries es idx c1 (res\<lparr>deletedScenes := deletedScenes res @ [k]\<rparr>) = (es', c', res')"
      by (simp add: e s)
    from Cons.IH[OF this] show ?thesis
      using True validSources_cong[OF u] scene_after_cong[OF u] by (simp add: e u)
  next
    case False
    from reconcile_scene_alive[OF False, of k idx res] obtain c1 r1 where
      s: "reconcile_scene k sc idx c res = (Some (scene_after c sc), c1, r1)"
      and u: "map msg_uuid c1 = map msg_uuid c" by blast
    obtain es1 c2 r2 where r: "reconcile_entries es idx c1 r1 = (es1, c2, r2)"
      by (cases "reconcile_entries es idx c1 r1") auto
    from Cons.prems have eq: "es' = (k, scene_after c sc) # es1" "c' = c2"
      by (simp_all add: e s r)
    from Cons.IH[OF r] show ?thesis
      using False eq validSources_cong[OF u] scene_after_cong[OF u] by (simp add: e u)
  qed
qed

text \<open>The three result lists, when the keys of the store are distinct (as object keys are).\<close>

lemma reconcile_entries_results:
  assumes "reconcile_entries es idx c res = (es', c', res')"
    and "distinct (map fst es)" and "set (map fst es) \<inter> set (deletedScenes res) = {}"
  shows "deletedScenes res' = deletedScenes res @ map fst (filter (\<lambda>(k, sc). validSources_of c sc = []) es) \<and>
     summaryLost res' = summaryLost res @
        map fst (filter (\<lambda>(k, sc). validSources_of c sc \<noteq> [] \<and> summary_lost c sc) es) \<and>
     modifiedScenes res' = modifiedScenes res @
        map fst (filter (\<lambda>(k, sc). validSources_of c sc \<noteq> [] \<and>
           (validSources_of c sc \<noteq> sourceMessageUUIDs sc \<or> summary_lost c sc)) es)"
  using assms
proof (induction es arbitrary: c res es' c' res')
  case Nil
  then show ?case by simp
next
  case (Cons e es)
  obtain k sc where e: "e = (k, sc)" by (cases e)
  from Cons.prems have dk: "distinct (map fst es)" "k \<notin> set (map fst es)" "k \<notin> set (deletedScenes res)"
    and dj: "set (map fst es) \<inter> set (deletedScenes res) = {}"
    by (auto simp: e)
  show ?case
  proof (cases "validSources_of c sc = []")
    case True
    let ?r1 = "res\<lparr>deletedScenes := deletedScenes res @ [k]\<rparr>"
    from reconcile_scene_dead[OF True, of k idx res] obtain c1 where
      s: "reconcile_scene k sc idx c res = (None, c1, ?r1)"
      and u: "map msg_uuid c1 = map msg_uuid c" by blast
    from Cons.prems(1) have r: "reconcile_entries es idx c1 ?r1 = (es', c', res')"
      by (simp add: e s)
    have dj1: "set (map fst es) \<inter> set (deletedScenes ?r1) = {}"
      using dj dk by auto
    from Cons.IH[OF r dk(1) dj1] show ?thesis
      using True by (simp add: e validSources_cong[OF u] summary_lost_cong[OF u])
  next
    case False
    define r1 where "r1 =
      (let res1 = (if summary_lost c sc then res\<lparr>summaryLost := summaryLost res @ [k]\<rparr> else res)
       in if (validSources_of c sc \<noteq> sourceMessageUUIDs sc \<or> summary_lost c sc)
              \<and> k \<notin> set (deletedScenes res1)
          then res1\<lparr>modifiedScenes := modifiedScenes res1 @ [k]\<rparr> else res1)"
    from reconcile_scene_alive[OF False, of k idx res] obtain c1 where
      s: "reconcile_scene k sc idx c res = (Some (scene_after c sc), c1, r1)"
      and u: "map msg_uuid c1 = map msg_uuid c" unfolding r1_def by blast
    have r1d: "deletedScenes r1 = deletedScenes res"
      and r1l: "summaryLost r1 = summaryLost res @ (if summary_lost c sc then [k] else [])"
      and r1m: "modifiedScenes r1 = modifiedScenes res @
          (if validSources_of c sc \<noteq> sourceMessageUUIDs sc \<or> summary_lost c sc then [k] else [])"
      using dk(3) by (auto simp: r1_def Let_def)
    obtain es1 c2 r2 where r: "reconcile_entries es idx c1 r1 = (es1, c2, r2)"
      by (cases "reconcile_entries es idx c1 r1") auto
    from Cons.prems(1) have eq: "res' = r2"
      using s r by (simp add: e)
    have dj1: "set (map fst es) \<inter> set (deletedScenes r1) = {}"
      using dj by (simp add: r1d)
    from Cons.IH[OF r dk(1) dj1] show ?thesis
      using False by (simp add: e eq r1d r1l r1m validSources_cong[OF u] summary_lost_cong[OF u])
  qed
qed

lemma keys_filter_disjoint:
  assumes "distinct (map fst es)" and "\<And>k v. P (k, v) \<Longrightarrow> Q (k, v) \<Longrightarrow> False"
  shows "set (map fst (filter P es)) \<inter> set (map fst (filter Q es)) = {}"
proof -
  have "False" if "k \<in> set (map fst (filter P es))" "k \<in> set (map fst (filter Q es))" for k
  proof -
    from that obtain v w where "(k, v) \<in> set es" "P (k, v)" "(k, w) \<in> set es" "Q (k, w)"
      by auto
    with assms(1) have "v = w" by (meson eq_key_imp_eq_value)
    with assms(2) \<open>P (k, v)\<close> \<open>Q (k, w)\<close> show False by blast
  qed
  then show ?thesis by blast
qed

lemma keys_filter_subset:
  assumes "\<And>kv. P kv \<Longrightarrow> Q kv"
  shows "set (map fst (filter P es)) \<subseteq> set (map fst (filter Q es))"
  using assms by auto

lemma scenes_put [simp]: "scenes (getSceneFoldData (put_scenes md ss)) = ss"
  by (simp add: put_scenes_def getSceneFoldData_def)

lemma put_put [simp]: "put_scenes (put_scenes md ss) ss' = put_scenes md ss'"
  by (simp add: put_scenes_def getSceneFoldData_def)

lemma validSources_idem: "validSources_of c (scene_after c sc) = validSources_of c sc"
  by (simp add: validSources_of_def scene_after_def)

lemma scene_after_sources: "sourceMessageUUIDs (scene_after c sc) = validSources_of c sc"
  by (simp add: scene_after_def)

lemma scene_after_not_lost: "\<not> summary_lost c (scene_after c sc)"
  by (auto simp: scene_after_def) (simp add: summary_lost_def)

lemma scene_after_fix:
  "validSources_of c sc = sourceMessageUUIDs sc \<Longrightarrow> \<not> summary_lost c sc \<Longrightarrow> scene_after c sc = sc"
  by (simp add: scene_after_def)

lemma reconcile_entries_stable:
  assumes "\<And>k sc. (k, sc) \<in> set es \<Longrightarrow>
     validSources_of c sc = sourceMessageUUIDs sc \<and> sourceMessageUUIDs sc \<noteq> [] \<and> \<not> summary_lost c sc"
  shows "reconcile_entries es idx c res = (es, c, res)"
  using assms
proof (induction es)
  case Nil
  then show ?case by simp
next
  case (Cons e es)
  obtain k sc where e: "e = (k, sc)" by (cases e)
  have st: "validSources_of c sc = sourceMessageUUIDs sc" "sourceMessageUUIDs sc \<noteq> []"
    "\<not> summary_lost c sc"
    using Cons.prems[of k sc] by (simp_all add: e)
  then have ne: "validSources_of c sc \<noteq> []" by simp
  from reconcile_scene_alive[OF ne, of k idx res] st
  have s: "reconcile_scene k sc idx c res = (Some sc, c, res)"
    by (auto simp: scene_after_fix Let_def)
  have "reconcile_entries es idx c res = (es, c, res)"
    by (rule Cons.IH) (use Cons.prems in auto)
  then show ?case by (simp add: e s)
qed

lemma run_reconcile_del:
  "reconcileScenesAfterDeletion store_del chat_del = (store_del_after, chat_del_after, result_del)"
  by (simp add: reconcileScenesAfterDeletion_def store_del_def store_del_after_def chat_del_def
       chat_del_after_def result_del_def store_of_def hidden_def
       put_scenes_def getSceneFoldData_def reconcile_scene_def summary_index_def scene_with_def
       findMessageIndexByUUID_def buildUUIDIndex_def msg_with_def msg_uuid_def chat_at_def Let_def
       unhide_sources_def update_msg_def)

text \<open>
  C1: after \<open>reconcileScenesAfterDeletion\<close>, every scene left in the store has a
  non-empty \<open>sourceMessageUUIDs\<close> whose every entry resolves in the chat (without a
  cache, and with a freshly built one), and the scenes left are exactly the entries whose
  recomputed source list is not empty: a scene whose recomputed list is empty is gone.
\<close>

theorem C1_deletion_safety:
  assumes "reconcileScenesAfterDeletion md c = (md', c', res)"
  shows "(\<forall>(k, sc) \<in> set (scenes (getSceneFoldData md')).
            sourceMessageUUIDs sc \<noteq> [] \<and>
            (\<forall>u \<in> set (sourceMessageUUIDs sc).
               findMessageIndexByUUID c' u None \<noteq> - 1 \<and>
               findMessageIndexByUUID c' u (Some (buildUUIDIndex c')) \<noteq> - 1)) \<and>
         map fst (scenes (getSceneFoldData md')) =
           map fst (filter (\<lambda>(k, sc).
               filter (\<lambda>u. findMessageIndexByUUID c u None \<noteq> - 1) (sourceMessageUUIDs sc) \<noteq> [])
             (scenes (getSceneFoldData md)))"
proof -
  let ?es = "scenes (getSceneFoldData md)"
  let ?r0 = "\<lparr>modifiedScenes = [], deletedScenes = [], summaryLost = []\<rparr>"
  from assms obtain es' where r: "reconcile_entries ?es (buildUUIDIndex c) c ?r0 = (es', c', res)"
    and md': "md' = put_scenes md es'"
    by (auto simp: reconcileScenesAfterDeletion_def Let_def split: prod.splits)
  from reconcile_entries_store[OF r]
  have u: "map msg_uuid c' = map msg_uuid c"
    and es': "es' = map (\<lambda>(k, sc). (k, scene_after c sc))
                      (filter (\<lambda>(k, sc). validSources_of c sc \<noteq> []) ?es)"
    by simp_all
  have keys: "map fst es' = map fst (filter (\<lambda>(k, sc). validSources_of c sc \<noteq> []) ?es)"
    unfolding es' by (induction ?es) auto
  have a: "sourceMessageUUIDs sc \<noteq> [] \<and>
            (\<forall>u \<in> set (sourceMessageUUIDs sc).
               findMessageIndexByUUID c' u None \<noteq> - 1 \<and>
               findMessageIndexByUUID c' u (Some (buildUUIDIndex c')) \<noteq> - 1)"
    if "(k, sc) \<in> set es'" for k sc
  proof -
    from that obtain sc0 where sc: "sc = scene_after c sc0" and ne: "validSources_of c sc0 \<noteq> []"
      by (auto simp: es')
    have "live c x" if "x \<in> set (sourceMessageUUIDs sc)" for x
      using that by (simp add: sc scene_after_sources validSources_of_def)
    then have "live c' x" if "x \<in> set (sourceMessageUUIDs sc)" for x
      using that live_cong[OF u] by simp
    then show ?thesis
      using ne by (auto simp: sc scene_after_sources find_live live_def)
  qed
  show ?thesis
    using a keys by (auto simp: md' valid_filter validSources_of_def)
qed

theorem C1_deletion_safety_witness:
  "reconcileScenesAfterDeletion store_del chat_del = (store_del_after, chat_del_after, result_del) \<and>
   map fst (scenes (getSceneFoldData store_del_after)) = [''s1'', ''s3''] \<and>
   map (sourceMessageUUIDs \<circ> snd) (scenes (getSceneFoldData store_del_after)) = [[''a'', ''c''], [''d'']] \<and>
   findMessageIndexByUUID chat_del_after ''a'' None = 0 \<and>
   findMessageIndexByUUID chat_del_after ''c'' None = 1 \<and>
   findMessageIndexByUUID chat_del_after ''d'' None = 2"
proof -
  have "findMessageIndexByUUID chat_del_after ''a'' None = 0 \<and>
   findMessageIndexByUUID chat_del_after ''c'' None = 1 \<and>
   findMessageIndexByUUID chat_del_after ''d'' None = 2"
    by (simp add: findMessageIndexByUUID_def chat_del_after_def msg_with_def msg_uuid_def)
  then show ?thesis
    using C1_deletion_safety[OF run_reconcile_del] run_reconcile_del
    by (simp add: store_del_after_def store_of_def getSceneFoldData_def scene_with_def)
qed

text \<open>
  C4, as stated, at \<open>store_del\<close> and \<open>chat_del\<close>: scene \<open>s3\<close> lost its summary and is
  reported both as modified and as having lost its summary, so the result sets are not
  pairwise disjoint.
\<close>

theorem C4_modified_and_summaryLost_overlap:
  "snd (snd (reconcileScenesAfterDeletion store_del chat_del)) =
     \<lparr>modifiedScenes = [''s1'', ''s3''], deletedScenes = [''s2''], summaryLost = [''s3'']\<rparr> \<and>
   set (modifiedScenes (snd (snd (reconcileScenesAfterDeletion store_del chat_del)))) \<inter>
   set (summaryLost (snd (snd (reconcileScenesAfterDeletion store_del chat_del)))) \<noteq> {}"
  by (simp add: run_reconcile_del result_del_def)

text \<open>
  C4, amended: the scenes deleted are disjoint from the scenes modified and from the
  scenes that lost their summary, and every scene that lost its summary is also reported
  as modified.
\<close>

theorem C4_result_sets:
  assumes "distinct (map fst (scenes (getSceneFoldData md)))"
    and "reconcileScenesAfterDeletion md c = (md', c', res)"
  shows "set (deletedScenes res) \<inter> set (modifiedScenes res) = {} \<and>
         set (deletedScenes res) \<inter> set (summaryLost res) = {} \<and>
         set (summaryLost res) \<subseteq> set (modifiedScenes res)"
proof -
  let ?es = "scenes (getSceneFoldData md)"
  let ?r0 = "\<lparr>modifiedScenes = [], deletedScenes = [], summaryLost = []\<rparr>"
  from assms(2) obtain es' where r: "reconcile_entries ?es (buildUUIDIndex c) c ?r0 = (es', c', res)"
    by (auto simp: reconcileScenesAfterDeletion_def Let_def split: prod.splits)
  from reconcile_entries_results[OF r assms(1)]
  have d: "deletedScenes res = map fst (filter (\<lambda>(k, sc). validSources_of c sc = []) ?es)"
    and l: "summaryLost res =
              map fst (filter (\<lambda>(k, sc). validSources_of c sc \<noteq> [] \<and> summary_lost c sc) ?es)"
    and m: "modifiedScenes res = map fst (filter (\<lambda>(k, sc). validSources_of c sc \<noteq> [] \<and>
           (validSources_of c sc \<noteq> sourceMessageUUIDs sc \<or> summary_lost c sc)) ?es)"
    by simp_all
  show ?thesis
    unfolding d l m
    by (intro conjI keys_filter_disjoint[OF assms(1)] keys_filter_subset) auto
qed

theorem C4_result_sets_witness:
  "distinct (map fst (scenes (getSceneFoldData store_del))) \<and>
   reconcileScenesAfterDeletion store_del chat_del = (store_del_after, chat_del_after, result_del) \<and>
   set (deletedScenes result_del) \<inter> set (modifiedScenes result_del) = {} \<and>
   set (deletedScenes result_del) \<inter> set (summaryLost result_del) = {} \<and>
   set (summaryLost result_del) \<subseteq> set (modifiedScenes result_del)"
proof -
  have d: "distinct (map fst (scenes (getSceneFoldData store_del)))"
    by (simp add: store_del_def store_of_def getSceneFoldData_def)
  show ?thesis
    using C4_result_sets[OF d run_reconcile_del] d run_reconcile_del by simp
qed

text \<open>
  C6: deletion reconciliation is idempotent. Run a second time on the store and the
  chat the first run left, it returns three empty result lists and leaves the store and
  the chat as they are.
\<close>

theorem C6_deletion_idempotent:
  "(case reconcileScenesAfterDeletion md c of
      (md1, c1, res1) \<Rightarrow>
        reconcileScenesAfterDeletion md1 c1 =
          (md1, c1, \<lparr>modifiedScenes = [], deletedScenes = [], summaryLost = []\<rparr>))"
proof -
  let ?es = "scenes (getSceneFoldData md)"
  let ?r0 = "\<lparr>modifiedScenes = [], deletedScenes = [], summaryLost = []\<rparr>"
  obtain es1 c1 res1 where r: "reconcile_entries ?es (buildUUIDIndex c) c ?r0 = (es1, c1, res1)"
    by (cases "reconcile_entries ?es (buildUUIDIndex c) c ?r0") auto
  from reconcile_entries_store[OF r]
  have u: "map msg_uuid c1 = map msg_uuid c"
    and es1: "es1 = map (\<lambda>(k, sc). (k, scene_after c sc))
                      (filter (\<lambda>(k, sc). validSources_of c sc \<noteq> []) ?es)"
    by simp_all
  have stable: "validSources_of c1 sc = sourceMessageUUIDs sc \<and> sourceMessageUUIDs sc \<noteq> [] \<and>
      \<not> summary_lost c1 sc"
    if "(k, sc) \<in> set es1" for k sc
  proof -
    from that obtain sc0 where "sc = scene_after c sc0" "validSources_of c sc0 \<noteq> []"
      by (auto simp: es1)
    then show ?thesis
      by (simp add: validSources_cong[OF u] summary_lost_cong[OF u] validSources_idem
            scene_after_sources scene_after_not_lost)
  qed
  have "reconcile_entries es1 (buildUUIDIndex c1) c1 ?r0 = (es1, c1, ?r0)"
    by (rule reconcile_entries_stable) (use stable in blast)
  then show ?thesis
    by (simp add: reconcileScenesAfterDeletion_def Let_def r)
qed

theorem C6_deletion_idempotent_witness:
  "reconcileScenesAfterDeletion store_del chat_del = (store_del_after, chat_del_after, result_del) \<and>
   reconcileScenesAfterDeletion store_del_after chat_del_after =
     (store_del_after, chat_del_after, \<lparr>modifiedScenes = [], deletedScenes = [], summaryLost = []\<rparr>)"
  using C6_deletion_idempotent[of store_del chat_del] run_reconcile_del by simp

section \<open>Summarization and the queue\<close>

subsection \<open>The store under updates\<close>

lemma getScene_updateScene:
  "getScene (updateScene md k f) k' = (if k' = k then map_option f (getScene md k) else getScene md k')"
  by (cases "map_of (scenes (getSceneFoldData md)) k")
     (auto simp: updateScene_def getScene_def update_conv')

lemma status_updateScene:
  "map_option status (getScene (updateScene md k f) k') =
     (if k' = k then map_option (status \<circ> f) (getScene md k) else map_option status (getScene md k'))"
  by (simp add: getScene_updateScene option.map_comp)

lemma status_revert_queued:
  "map_option status (getScene (revert_queued md k) k') =
     (if k' = k \<and> map_option status (getScene md k) = Some Queued then Some Defined
      else map_option status (getScene md k'))"
  by (cases "getScene md k") (auto simp: revert_queued_def getScene_updateScene)

lemma catch_exit_error:
  assumes "err_name e \<noteq> ''AbortError''"
  shows "job (catch_exit k e st) = Settled k Fulfilled"
    and "getScene (store (catch_exit k e st)) k =
           map_option (\<lambda>s. s\<lparr>status := Error, lastError := Some (error_text e)\<rparr>) (getScene (store st) k)"
    and "msgs (catch_exit k e st) = msgs st" and "q (catch_exit k e st) = q st"
  using assms by (simp_all add: catch_exit_def getScene_updateScene)

subsection \<open>Runs of the examples\<close>

lemmas run_defs = run_def step_def add_def processNext_def worker_start_def summarizeScene_start_def
  attempt_loop_def aborted_def getScene_def updateScene_def put_scenes_def getSceneFoldData_def
  store_of_def scene_with_def msg_with_def findMessageIndexByUUID_def buildUUIDIndex_def
  msg_uuid_def chat_at_def Let_def sys_three_def queue_idle_def store_three_with_def
  chat_three_def env_two_retries_def sys_three_active_def

lemma run_add_S1: "run env_two_retries [Add ''S1''] sys_three = sys_three_active [] Defined"
  by (simp add: run_defs)

lemma run_add_three:
  "run env_two_retries [Add ''S1'', Add ''S2'', Add ''S3''] sys_three =
     sys_three_active [''S2'', ''S3''] Queued"
  by (simp add: run_defs)

lemma rate_limit_retryable: "\<not> nonRetryable (toLowerCase (error_text rate_limit_error))"
  by (simp add: nonRetryable_def toLowerCase_def lower_char_def has_substring_def
        content_filter_at_def rate_limit_error_def error_text_def)

lemma http_429_nonRetryable: "nonRetryable (toLowerCase (error_text http_429_error))"
  by (simp add: nonRetryable_def toLowerCase_def lower_char_def has_substring_def
        content_filter_at_def http_429_error_def error_text_def)

subsection \<open>Classification of generation errors\<close>

text \<open>
  C5, as stated, on the first attempt for \<open>S1\<close> with two retries allowed: the summarizer
  throws \<open>Rate limit exceeded\<close>. The text matches none of the alternatives of the pattern,
  so the failure is retried: a second call of \<open>generateRaw\<close> is in flight and the scene
  is still \<open>summarizing\<close>, with no \<open>lastError\<close>.
\<close>

theorem C5_rate_limit_text_is_retried:
  "job (run env_two_retries [Add ''S1'', GenDone (Threw rate_limit_error)] sys_three)
     = Generating ''S1'' 2 3 [0] \<and>
   map_option status
     (getScene (store (run env_two_retries [Add ''S1'', GenDone (Threw rate_limit_error)] sys_three)) ''S1'')
     = Some Summarizing \<and>
   map_option lastError
     (getScene (store (run env_two_retries [Add ''S1'', GenDone (Threw rate_limit_error)] sys_three)) ''S1'')
     = Some None"
proof -
  have "run env_two_retries [Add ''S1'', GenDone (Threw rate_limit_error)] sys_three =
          step env_two_retries (GenDone (Threw rate_limit_error)) (sys_three_active [] Defined)"
    using run_add_S1 by (simp add: run_def)
  also have "\<dots> = (sys_three_active [] Defined)\<lparr>job := Generating ''S1'' 2 3 [0]\<rparr>"
    using rate_limit_retryable
    by (simp add: step_def summarizeScene_resume_def sys_three_active_def aborted_def attempt_loop_def)
  finally show ?thesis
    by (simp add: sys_three_active_def store_three_with_def store_of_def getScene_def
          getSceneFoldData_def scene_with_def)
qed

text \<open>
  C5, amended: when a call of \<open>generateRaw\<close> throws (and the scene was not cancelled),
  the failure is final at once, whatever the attempt, exactly when the lower-cased error
  text matches the pattern of the code (\<open>prohibit\<close>, \<open>content filter\<close>, \<open>refus\<close>, \<open>safety\<close>,
  \<open>moderat\<close>, \<open>blocked\<close>, \<open>policy\<close>, \<open>unauthorized\<close>, \<open>forbidden\<close>, \<open>400\<close>, \<open>401\<close>, \<open>403\<close>,
  \<open>429\<close>) or no attempt is left: the scene goes to \<open>error\<close> with the cause in \<open>lastError\<close>.
  An error whose text only says \<open>rate limit\<close> matches nothing and is retried while
  attempts are left.
\<close>

theorem C5_error_classification:
  assumes "job st = Generating sceneId attempt maxAttempts sourceIndices"
    and "\<not> aborted st" and "err_name genError \<noteq> ''AbortError''"
  shows "(nonRetryable (toLowerCase (error_text genError)) \<or> maxAttempts \<le> int attempt \<longrightarrow>
            job (step ev (GenDone (Threw genError)) st) = Settled sceneId Fulfilled \<and>
            getScene (store (step ev (GenDone (Threw genError)) st)) sceneId =
              map_option (\<lambda>s. s\<lparr>status := Error, lastError := Some (error_text genError)\<rparr>)
                (getScene (store st) sceneId)) \<and>
         (\<not> nonRetryable (toLowerCase (error_text genError)) \<and> int attempt < maxAttempts \<longrightarrow>
            step ev (GenDone (Threw genError)) st =
              st\<lparr>job := Generating sceneId (Suc attempt) maxAttempts sourceIndices\<rparr>)"
  using assms
  by (auto simp: step_def summarizeScene_resume_def catch_exit_error attempt_loop_def)

theorem C5_error_classification_witness:
  "job (sys_three_active [] Defined) = Generating ''S1'' 1 3 [0] \<and>
   \<not> aborted (sys_three_active [] Defined) \<and>
   nonRetryable (toLowerCase (error_text http_429_error)) \<and>
   job (step env_two_retries (GenDone (Threw http_429_error)) (sys_three_active [] Defined))
     = Settled ''S1'' Fulfilled \<and>
   map_option status
     (getScene (store (step env_two_retries (GenDone (Threw http_429_error)) (sys_three_active [] Defined))) ''S1'')
     = Some Error \<and>
   map_option lastError
     (getScene (store (step env_two_retries (GenDone (Threw http_429_error)) (sys_three_active [] Defined))) ''S1'')
     = Some (Some ''HTTP 429 Too Many Requests'') \<and>
   \<not> nonRetryable (toLowerCase (error_text rate_limit_error)) \<and>
   step env_two_retries (GenDone (Threw rate_limit_error)) (sys_three_active [] Defined)
     = (sys_three_active [] Defined)\<lparr>job := Generating ''S1'' 2 3 [0]\<rparr>"
proof -
  have j: "job (sys_three_active [] Defined) = Generating ''S1'' 1 3 [0]"
    and a: "\<not> aborted (sys_three_active [] Defined)"
    by (simp_all add: sys_three_active_def aborted_def)
  have n1: "err_name http_429_error \<noteq> ''AbortError''" by (simp add: http_429_error_def)
  have n2: "err_name rate_limit_error \<noteq> ''AbortError''" by (simp add: rate_limit_error_def)
  have g: "getScene (store (sys_three_active [] Defined)) ''S1'' =
      Some ((scene_with ''S1'' [''a''] None Defined)\<lparr>status := Summarizing, lastError := None\<rparr>)"
    by (simp add: sys_three_active_def store_three_with_def store_of_def getScene_def getSceneFoldData_def)
  show ?thesis
    using C5_error_classification[OF j a n1, of env_two_retries]
      C5_error_classification[OF j a n2, of env_two_retries]
      http_429_nonRetryable rate_limit_retryable j a
    by (simp add: g error_text_def http_429_error_def)
qed

subsection \<open>Cancelling everything while a scene is being summarized\<close>

lemma summary_text: "trim ''A summary'' = ''A summary''" "\<not> refusal_text ''A summary''"
  by code_simp+

lemmas run_save_defs = run_defs summarizeScene_resume_def cancelAll_def revert_queued_def
  processNext_resume_def insert_summary_def summary_message_def min_index_def set_sources_hidden_def
  catch_exit_def abort_exit_def mint_def summary_text

text \<open>
  C8, as stated: \<open>S1\<close>, \<open>S2\<close>, \<open>S3\<close> are enqueued and the call of \<open>generateRaw\<close> for \<open>S1\<close>
  returns a summary. \<open>summarizeScene\<close> inserts the summary, marks \<open>S1\<close> \<open>completed\<close> and
  waits for \<open>saveChat\<close>; \<open>S1\<close> is still the active scene of the queue and \<open>S2\<close>, \<open>S3\<close> are
  pending. \<open>cancelAll\<close> now sets the abort flag, but \<open>summarizeScene\<close> tests the flag
  nowhere after the summary is written: once the save has ended and the queue has gone
  idle, \<open>S1\<close> is \<open>completed\<close>, not \<open>defined\<close>.
\<close>

theorem C8_cancelAll_while_saving:
  "run env_two_retries [Add ''S1'', Add ''S2'', Add ''S3''] sys_three
     = sys_three_active [''S2'', ''S3''] Queued \<and>
   activeId (q (run env_two_retries [GenDone (Returned (Some ''A summary''))]
      (sys_three_active [''S2'', ''S3''] Queued))) = Some ''S1'' \<and>
   job (run env_two_retries [GenDone (Returned (Some ''A summary''))]
      (sys_three_active [''S2'', ''S3''] Queued)) = Saving ''S1'' \<and>
   pending (q (run env_two_retries [GenDone (Returned (Some ''A summary''))]
      (sys_three_active [''S2'', ''S3''] Queued))) = [''S2'', ''S3''] \<and>
   map_option status (getScene (store (run env_two_retries
       [GenDone (Returned (Some ''A summary'')), CancelAll, SaveDone Saved, Resume, Timer]
       (sys_three_active [''S2'', ''S3''] Queued))) ''S1'') = Some Completed \<and>
   activeId (q (run env_two_retries
       [GenDone (Returned (Some ''A summary'')), CancelAll, SaveDone Saved, Resume, Timer]
       (sys_three_active [''S2'', ''S3''] Queued))) = None"
  using run_add_three by (simp add: run_save_defs)

text \<open>
  C8, amended: \<open>S1\<close> is active with its call of the summarizer still in flight (so its
  status is \<open>summarizing\<close>), \<open>S2\<close> and \<open>S3\<close> are pending and \<open>queued\<close>. \<open>cancelAll\<close>
  empties the pending list, resets the batch totals to zero and reverts \<open>S2\<close> and \<open>S3\<close> to
  \<open>defined\<close> at once; \<open>S1\<close> reverts to \<open>defined\<close> when the call in flight ends, whatever
  its result \<open>r\<close>; and once the queue has resumed and its timer has fired, the three
  scenes are \<open>defined\<close>, the pending list is empty, the totals are zero and the queue is
  idle.
\<close>

theorem C8_cancelAll_while_active:
  assumes "activeId (q st) = Some S1" and "activeAbort (q st) = Some b"
    and "job st = Generating S1 attempt maxAttempts sourceIndices"
    and "pending (q st) = [S2, S3]" and "S1 \<noteq> S2" and "S1 \<noteq> S3"
    and "map_option status (getScene (store st) S1) = Some Summarizing"
    and "map_option status (getScene (store st) S2) = Some Queued"
    and "map_option status (getScene (store st) S3) = Some Queued"
  shows "pending (q (run ev [CancelAll] st)) = [] \<and>
         batchTotal (q (run ev [CancelAll] st)) = 0 \<and> batchDone (q (run ev [CancelAll] st)) = 0 \<and>
         map_option status (getScene (store (run ev [CancelAll] st)) S2) = Some Defined \<and>
         map_option status (getScene (store (run ev [CancelAll] st)) S3) = Some Defined \<and>
         map_option status (getScene (store (run ev [CancelAll, GenDone r] st)) S1) = Some Defined \<and>
         map_option status (getScene (store (run ev [CancelAll, GenDone r, Resume, Timer] st)) S1) = Some Defined \<and>
         map_option status (getScene (store (run ev [CancelAll, GenDone r, Resume, Timer] st)) S2) = Some Defined \<and>
         map_option status (getScene (store (run ev [CancelAll, GenDone r, Resume, Timer] st)) S3) = Some Defined \<and>
         pending (q (run ev [CancelAll, GenDone r, Resume, Timer] st)) = [] \<and>
         batchTotal (q (run ev [CancelAll, GenDone r, Resume, Timer] st)) = 0 \<and>
         batchDone (q (run ev [CancelAll, GenDone r, Resume, Timer] st)) = 0 \<and>
         activeId (q (run ev [CancelAll, GenDone r, Resume, Timer] st)) = None \<and>
         \<not> processing (q (run ev [CancelAll, GenDone r, Resume, Timer] st)) \<and>
         job (run ev [CancelAll, GenDone r, Resume, Timer] st) = Idle"
proof -
  define st1 where "st1 = cancelAll st"
  have q1: "q st1 = (q st)\<lparr>activeAbort := Some True, pending := [], batchTotal := 0, batchDone := 0\<rparr>"
    and j1: "job st1 = job st" and t1: "timers st1 = timers st"
    and s1: "store st1 = revert_queued (revert_queued (store st) S2) S3"
    using assms by (simp_all add: st1_def cancelAll_def)
  have g1: "map_option status (getScene (store st1) S1) = Some Summarizing"
    "map_option status (getScene (store st1) S2) = Some Defined"
    "map_option status (getScene (store st1) S3) = Some Defined"
    using assms by (simp_all add: s1 status_revert_queued)
  define st2 where "st2 = step ev (GenDone r) st1"
  have ab: "aborted st1" by (simp add: aborted_def q1)
  have st2: "st2 = abort_exit S1 st1"
    using ab assms(3) by (cases r) (simp_all add: st2_def step_def j1 summarizeScene_resume_def
        catch_exit_def AbortError_def)
  have g2: "map_option status (getScene (store st2) S1) = Some Defined"
    "map_option status (getScene (store st2) S2) = Some Defined"
    "map_option status (getScene (store st2) S3) = Some Defined"
    using g1 assms(5,6) by (auto simp: st2 abort_exit_def status_updateScene)
  have q2: "q st2 = q st1" and j2: "job st2 = Settled S1 RejectedAbort" and t2: "timers st2 = timers st"
    by (simp_all add: st2 abort_exit_def t1)
  define st3 where "st3 = step ev Resume st2"
  have st3: "st3 = processNext_resume S1 RejectedAbort st2"
    by (simp add: st3_def step_def j2)
  have g3: "map_option status (getScene (store st3) S1) = Some Defined"
    "map_option status (getScene (store st3) S2) = Some Defined"
    "map_option status (getScene (store st3) S3) = Some Defined"
    using g2 by (auto simp: st3 processNext_resume_def Let_def split: option.splits)
  have q3: "pending (q st3) = []" and t3: "timers st3 = Suc (timers st)"
    by (simp_all add: st3 processNext_resume_def Let_def q2 q1 t2)
  define st4 where "st4 = step ev Timer st3"
  have st4: "st4 = st3\<lparr>timers := timers st, q := (q st3)\<lparr>processing := False, activeId := None,
        activeAbort := None, batchTotal := 0, batchDone := 0\<rparr>\<rparr>"
    by (simp add: st4_def step_def t3 processNext_def q3)
  have j3: "job st3 = Idle" by (simp add: st3 processNext_resume_def Let_def)
  have r1: "run ev [CancelAll] st = st1" by (simp add: run_def step_def st1_def)
  have r2: "run ev [CancelAll, GenDone r] st = st2" by (simp add: run_def step_def st1_def st2_def)
  have r4: "run ev [CancelAll, GenDone r, Resume, Timer] st = st4"
    by (simp add: run_def st1_def st2_def st3_def st4_def) (simp add: step_def)
  show ?thesis
    unfolding r1 r2 r4 using g1 g2 g3 q3 j3 by (simp add: q1 st4)
qed

theorem C8_cancelAll_while_active_witness:
  "run env_two_retries [Add ''S1'', Add ''S2'', Add ''S3''] sys_three
     = sys_three_active [''S2'', ''S3''] Queued \<and>
   map_option status (getScene (store (run env_two_retries
       [CancelAll, GenDone (Returned (Some ''A summary'')), Resume, Timer]
       (sys_three_active [''S2'', ''S3''] Queued))) ''S1'') = Some Defined \<and>
   map_option status (getScene (store (run env_two_retries
       [CancelAll, GenDone (Returned (Some ''A summary'')), Resume, Timer]
       (sys_three_active [''S2'', ''S3''] Queued))) ''S2'') = Some Defined \<and>
   map_option status (getScene (store (run env_two_retries
       [CancelAll, GenDone (Returned (Some ''A summary'')), Resume, Timer]
       (sys_three_active [''S2'', ''S3''] Queued))) ''S3'') = Some Defined \<and>
   pending (q (run env_two_retries
       [CancelAll, GenDone (Returned (Some ''A summary'')), Resume, Timer]
       (sys_three_active [''S2'', ''S3''] Queued))) = [] \<and>
   batchTotal (q (run env_two_retries
       [CancelAll, GenDone (Returned (Some ''A summary'')), Resume, Timer]
       (sys_three_active [''S2'', ''S3''] Queued))) = 0 \<and>
   batchDone (q (run env_two_retries
       [CancelAll, GenDone (Returned (Some ''A summary'')), Resume, Timer]
       (sys_three_active [''S2'', ''S3''] Queued))) = 0"
proof -
  let ?st = "sys_three_active [''S2'', ''S3''] Queued"
  have h: "activeId (q ?st) = Some ''S1''" "activeAbort (q ?st) = Some False"
    "job ?st = Generating ''S1'' 1 3 [0]" "pending (q ?st) = [''S2'', ''S3'']"
    "''S1'' \<noteq> ''S2''" "''S1'' \<noteq> ''S3''"
    "map_option status (getScene (store ?st) ''S1'') = Some Summarizing"
    "map_option status (getScene (store ?st) ''S2'') = Some Queued"
    "map_option status (getScene (store ?st) ''S3'') = Some Queued"
    by (simp_all add: sys_three_active_def store_three_with_def store_of_def getScene_def
          getSceneFoldData_def scene_with_def)
  show ?thesis
    using C8_cancelAll_while_active[OF h, of env_two_retries "Returned (Some ''A summary'')"]
      run_add_three
    by simp
qed

subsection \<open>Single concurrency\<close>

lemma keys_updateScene:
  "map fst (scenes (getSceneFoldData (updateScene md k f))) = map fst (scenes (getSceneFoldData md))"
proof (cases "map_of (scenes (getSceneFoldData md)) k")
  case None
  then show ?thesis by (simp add: updateScene_def)
next
  case (Some sc)
  then have "k \<in> fst ` set (scenes (getSceneFoldData md))"
    by (metis map_of_eq_None_iff option.distinct(1))
  with Some show ?thesis by (simp add: updateScene_def update_keys)
qed

lemma touches_refl: "touches k st st"
  by (simp add: touches_def)

lemma touches_trans: "touches k st st1 \<Longrightarrow> touches k st1 st2 \<Longrightarrow> touches k st st2"
  by (simp add: touches_def)

lemma touches_update:
  "touches k st (st\<lparr>store := updateScene (store st) k f\<rparr>)"
  by (simp add: touches_def store_keys_def keys_updateScene status_of_def getScene_updateScene)

lemma touches_job: "touches k st st1 \<Longrightarrow> touches k st (st1\<lparr>job := j\<rparr>)"
  by (simp add: touches_def store_keys_def status_of_def)

lemma touches_msgs: "touches k st st1 \<Longrightarrow> touches k st (st1\<lparr>msgs := c\<rparr>)"
  by (simp add: touches_def store_keys_def status_of_def)

lemma status_of_update [simp]:
  "status_of (st\<lparr>store := updateScene (store st) k f\<rparr>) k' =
     (if k' = k then map_option (status \<circ> f) (getScene (store st) k) else status_of st k')"
  by (simp add: status_of_def getScene_updateScene option.map_comp)

lemma abort_exit_ok: "touches k st (abort_exit k st) \<and> lands k (abort_exit k st)"
  by (auto simp: abort_exit_def touches_def lands_def store_keys_def keys_updateScene
        status_of_def getScene_updateScene)

lemma catch_exit_ok: "touches k st (catch_exit k e st) \<and> lands k (catch_exit k e st)"
  using abort_exit_ok[of k st]
  by (auto simp: catch_exit_def touches_def lands_def store_keys_def keys_updateScene
        status_of_def getScene_updateScene)

lemma attempt_loop_ok:
  "touches k st (attempt_loop k a m is st) \<and> lands k (attempt_loop k a m is st)"
  using catch_exit_ok[of k st]
  by (auto simp: attempt_loop_def touches_def lands_def store_keys_def status_of_def)

lemma insert_summary_ok:
  "touches k st (insert_summary k s is st) \<and> lands k (insert_summary k s is st)"
  by (auto simp: insert_summary_def Let_def mint_def touches_def lands_def store_keys_def
        keys_updateScene status_of_def getScene_updateScene split: prod.splits)

lemma summarizeScene_resume_ok:
  "touches k st (summarizeScene_resume k a m is r st) \<and> lands k (summarizeScene_resume k a m is r st)"
  using catch_exit_ok[of k st] attempt_loop_ok[of k st] insert_summary_ok[of k st]
  by (auto simp: summarizeScene_resume_def split: gen_result.splits option.splits)

lemma settled_ok:
  "status_of st k \<noteq> Some Summarizing \<Longrightarrow>
     touches k st (st\<lparr>job := Settled k o'\<rparr>) \<and> lands k (st\<lparr>job := Settled k o'\<rparr>)"
  by (simp add: touches_def lands_def store_keys_def status_of_def)

lemma summarizeScene_start_ok:
  assumes "status_of st k \<noteq> Some Summarizing"
  shows "touches k st (summarizeScene_start ev k st) \<and> lands k (summarizeScene_start ev k st)"
proof -
  let ?st1 = "st\<lparr>store := updateScene (store st) k (\<lambda>s. s\<lparr>status := Summarizing, lastError := None\<rparr>)\<rparr>"
  have t1: "touches k st ?st1" by (rule touches_update)
  have c: "touches k st (catch_exit k e ?st1) \<and> lands k (catch_exit k e ?st1)" for e
    using catch_exit_ok[of k ?st1 e] t1 touches_trans by blast
  have a: "touches k st (attempt_loop k a m is ?st1) \<and> lands k (attempt_loop k a m is ?st1)" for a m "is"
    using attempt_loop_ok[of k ?st1 a m "is"] t1 touches_trans by blast
  show ?thesis
    using settled_ok[OF assms] c a
    by (simp add: summarizeScene_start_def Let_def split: option.splits)
qed

lemma prepareForRetry_start_ok:
  assumes "getScene (store st) k \<noteq> None"
  shows "touches k st (prepareForRetry_start k st) \<and> lands k (prepareForRetry_start k st)"
  using assms
  by (auto simp: prepareForRetry_start_def Let_def touches_def lands_def store_keys_def
        keys_updateScene status_of_def getScene_updateScene)

lemma worker_start_ok:
  assumes "status_of st k \<noteq> Some Summarizing"
  shows "touches k st (worker_start ev k st) \<and> lands k (worker_start ev k st)"
proof (cases "getScene (store st) k")
  case None
  then show ?thesis using summarizeScene_start_ok[OF assms] by (simp add: worker_start_def)
next
  case (Some sc)
  show ?thesis
  proof (cases "needsRetry sc")
    case False
    then show ?thesis using Some summarizeScene_start_ok[OF assms] by (simp add: worker_start_def)
  next
    case True
    let ?st1 = "st\<lparr>store := updateScene (store st) k (\<lambda>s. s\<lparr>needsRetry := False\<rparr>)\<rparr>"
    have t1: "touches k st ?st1" by (rule touches_update)
    have "getScene (store ?st1) k \<noteq> None" using Some by (simp add: getScene_updateScene)
    from prepareForRetry_start_ok[OF this] t1 touches_trans
    have "touches k st (prepareForRetry_start k ?st1) \<and> lands k (prepareForRetry_start k ?st1)"
      by blast
    then show ?thesis using Some True by (simp add: worker_start_def)
  qed
qed

lemma generating_job_scene: "generating j = Some k \<Longrightarrow> job_scene j = Some k"
  by (cases j) simp_all

lemma ready_lands_inv:
  assumes "ready k st" and "touches k st st'" and "lands k st'"
  shows "queue_inv st'"
proof -
  from assms(2) have same: "q st' = q st" "timers st' = timers st" "store_keys st' = store_keys st"
    and other: "\<And>k'. k' \<noteq> k \<Longrightarrow> status_of st' k' = status_of st k'"
    by (simp_all add: touches_def)
  from assms(1) have r: "distinct (store_keys st)" "distinct (pending (q st))"
    "activeId (q st) = Some k" "processing (q st)" "timers st = 0" "k \<notin> set (pending (q st))"
    and ns: "\<And>k'. k' \<noteq> k \<Longrightarrow> status_of st k' \<noteq> Some Summarizing"
    and pq: "\<And>k'. k' \<in> set (pending (q st)) \<Longrightarrow> status_of st k' = Some Queued \<or> status_of st k' = None"
    by (simp_all add: ready_def)
  from assms(3) have l: "job_scene (job st') = Some k"
    "status_of st' k = Some Summarizing \<Longrightarrow> generating (job st') = Some k"
    by (simp_all add: lands_def)
  have s: "generating (job st') = Some k'" if "status_of st' k' = Some Summarizing" for k'
    using that l(2) other[of k'] ns[of k'] by (cases "k' = k") auto
  have p: "status_of st' k' = Some Queued \<or> status_of st' k' = None" if "k' \<in> set (pending (q st'))" for k'
  proof -
    from that have "k' \<in> set (pending (q st))" by (simp add: same)
    moreover from this r(6) have "k' \<noteq> k" by auto
    ultimately show ?thesis using pq other by simp
  qed
  show ?thesis
    unfolding queue_inv_def using r l(1) s p by (auto simp: same)
qed

lemma inv_ready:
  assumes "queue_inv st" and "job_scene (job st) = Some k"
  shows "ready k st"
proof -
  have "job st \<noteq> Idle" using assms(2) by auto
  moreover have "status_of st k' \<noteq> Some Summarizing" if "k' \<noteq> k" for k'
  proof
    assume "status_of st k' = Some Summarizing"
    with assms(1) have "generating (job st) = Some k'" by (simp add: queue_inv_def)
    then have "job_scene (job st) = Some k'" by (rule generating_job_scene)
    with assms(2) that show False by simp
  qed
  ultimately show ?thesis
    using assms unfolding queue_inv_def ready_def by auto
qed

lemma inv_not_summarizing:
  assumes "queue_inv st" and "generating (job st) = None"
  shows "status_of st k \<noteq> Some Summarizing"
  using assms by (auto simp: queue_inv_def)

lemma processNext_inv:
  assumes "queue_inv st" and "job st = Idle" and "timers st = 0"
  shows "queue_inv (processNext ev st)"
proof (cases "pending (q st)")
  case Nil
  then show ?thesis
    using assms by (auto simp: processNext_def queue_inv_def store_keys_def status_of_def)
next
  case (Cons k rest)
  let ?st1 = "st\<lparr>q := (q st)\<lparr>processing := True, pending := rest, activeId := Some k,
                             activeAbort := Some False\<rparr>\<rparr>"
  have ns: "status_of st k' \<noteq> Some Summarizing" for k'
    using inv_not_summarizing[OF assms(1)] assms(2) by simp
  have so: "status_of ?st1 = status_of st" by (simp add: status_of_def fun_eq_iff)
  have "ready k ?st1"
    using assms(1,3) Cons ns unfolding ready_def queue_inv_def so
    by (auto simp: store_keys_def)
  moreover have "status_of ?st1 k \<noteq> Some Summarizing" using ns by (simp add: so)
  ultimately have "queue_inv (worker_start ev k ?st1)"
    using worker_start_ok ready_lands_inv by blast
  then show ?thesis using Cons by (simp add: processNext_def)
qed

lemma add_inv:
  assumes "queue_inv st"
  shows "queue_inv (add ev k st)"
proof (cases "k \<in> set (pending (q st)) \<or> activeId (q st) = Some k")
  case True
  then show ?thesis using assms by (simp add: add_def)
next
  case False
  let ?st1 = "st\<lparr>q := (q st)\<lparr>pending := pending (q st) @ [k],
                                    batchTotal := Suc (batchTotal (q st))\<rparr>,
                      store := updateScene (store st) k (\<lambda>s. s\<lparr>status := Queued\<rparr>)\<rparr>"
  have st: "status_of ?st1 k' = (if k' = k then map_option (\<lambda>_. Queued) (getScene (store st) k) else status_of st k')" for k'
    by (simp add: status_of_def getScene_updateScene option.map_comp comp_def)
  have keys: "store_keys ?st1 = store_keys st" by (simp add: store_keys_def keys_updateScene)
  have inv1: "queue_inv ?st1"
    unfolding queue_inv_def keys st using assms False
    by (auto simp: queue_inv_def split: if_splits)
  show ?thesis
  proof (cases "processing (q st)")
    case True
    then show ?thesis using False inv1 by (simp add: add_def Let_def)
  next
    case np: False
    with assms have "job st = Idle" "timers st = 0" by (auto simp: queue_inv_def)
    then have "queue_inv (processNext ev ?st1)"
      using inv1 by (intro processNext_inv) simp_all
    then show ?thesis using False np by (simp add: add_def Let_def)
  qed
qed

lemma addAll_inv:
  assumes "queue_inv st"
  shows "queue_inv (addAll ev ks st)"
proof -
  have f: "queue_inv s \<Longrightarrow> queue_inv (foldl (\<lambda>s k. add ev k s) s ks)" for s
    by (induction ks arbitrary: s) (simp_all add: add_inv)
  have "queue_inv (st\<lparr>q := (q st)\<lparr>batchTotal := n, batchDone := 0\<rparr>\<rparr>)" for n
    using assms by (simp add: queue_inv_def store_keys_def status_of_def)
  then show ?thesis unfolding addAll_def by (intro f)
qed

lemma status_of_revert:
  "status_of (st\<lparr>store := revert_queued (store st) k\<rparr>) k' =
     (if k' = k \<and> status_of st k = Some Queued then Some Defined else status_of st k')"
  by (cases "getScene (store st) k") (auto simp: status_of_def revert_queued_def getScene_updateScene)

lemma keys_revert: "map fst (scenes (getSceneFoldData (revert_queued md k))) = map fst (scenes (getSceneFoldData md))"
  by (cases "getScene md k") (auto simp: revert_queued_def keys_updateScene)

lemma inv_shrink:
  assumes "queue_inv st"
    and "store_keys st' = store_keys st" and "job st' = job st" and "timers st' = timers st"
    and "activeId (q st') = activeId (q st)" and "processing (q st') = processing (q st)"
    and "distinct (pending (q st'))" and "set (pending (q st')) \<subseteq> set (pending (q st))"
    and "\<And>k'. status_of st' k' = Some Summarizing \<Longrightarrow> status_of st k' = Some Summarizing"
    and "\<And>k'. k' \<in> set (pending (q st')) \<Longrightarrow> status_of st' k' = status_of st k'"
  shows "queue_inv st'"
proof -
  have p: "status_of st' k' = Some Queued \<or> status_of st' k' = None" if "k' \<in> set (pending (q st'))" for k'
    using that assms(1,8,10) by (auto simp: queue_inv_def)
  have s: "generating (job st') = Some k'" if "status_of st' k' = Some Summarizing" for k'
    using assms(9)[OF that] assms(1,3) by (simp add: queue_inv_def)
  have a: "k' \<notin> set (pending (q st'))" if "activeId (q st') = Some k'" for k'
    using that assms(1,5,8) by (auto simp: queue_inv_def)
  show ?thesis
    unfolding queue_inv_def using assms(1-7) p s a by (auto simp: queue_inv_def)
qed

lemma status_of_store_cong: "store st' = store st \<Longrightarrow> status_of st' = status_of st"
  by (simp add: status_of_def fun_eq_iff)

lemma cancel_inv:
  assumes "queue_inv st"
  shows "queue_inv (cancel k st)"
proof (cases "k \<in> set (pending (q st))")
  case True
  let ?st1 = "st\<lparr>store := revert_queued (store st) k\<rparr>"
  let ?st2 = "st\<lparr>q := (q st)\<lparr>pending := remove1 k (pending (q st)),
                        batchDone := Suc (batchDone (q st))\<rparr>,
           store := revert_queued (store st) k\<rparr>"
  have so: "status_of ?st2 = status_of ?st1" by (rule status_of_store_cong) simp
  have dp: "distinct (pending (q st))" using assms by (simp add: queue_inv_def)
  have "queue_inv ?st2"
  proof (rule inv_shrink[OF assms])
    show "store_keys ?st2 = store_keys st" by (simp add: store_keys_def keys_revert)
    show "distinct (pending (q ?st2))" using dp by simp
    show "set (pending (q ?st2)) \<subseteq> set (pending (q st))" using set_remove1_subset[of k "pending (q st)"] by simp
    show "status_of st k' = Some Summarizing" if "status_of ?st2 k' = Some Summarizing" for k'
      using that unfolding so status_of_revert by (auto split: if_splits)
    show "status_of ?st2 k' = status_of st k'" if "k' \<in> set (pending (q ?st2))" for k'
    proof -
      from that dp have "k' \<noteq> k" by auto
      then show ?thesis unfolding so status_of_revert by simp
    qed
  qed simp_all
  then show ?thesis using True by (simp add: cancel_def)
next
  case False
  then show ?thesis
    using assms by (auto simp: cancel_def queue_inv_def store_keys_def status_of_def)
qed

lemma foldl_revert_keys:
  "map fst (scenes (getSceneFoldData (foldl revert_queued md ks))) = map fst (scenes (getSceneFoldData md))"
  by (induction ks arbitrary: md) (simp_all add: keys_revert)

lemma foldl_revert_summarizing:
  "map_option status (getScene (foldl revert_queued md ks) k') = Some Summarizing \<Longrightarrow>
   map_option status (getScene md k') = Some Summarizing"
proof (induction ks arbitrary: md)
  case Nil
  then show ?case by simp
next
  case (Cons k ks)
  from Cons.IH[of "revert_queued md k"] Cons.prems
  have "map_option status (getScene (revert_queued md k) k') = Some Summarizing"
    by simp
  then show ?case
    by (auto simp: status_revert_queued split: if_splits)
qed

lemma cancelAll_inv:
  assumes "queue_inv st"
  shows "queue_inv (cancelAll st)"
proof (rule inv_shrink[OF assms])
  show "store_keys (cancelAll st) = store_keys st"
    by (simp add: cancelAll_def store_keys_def foldl_revert_keys)
  show "status_of st k' = Some Summarizing" if "status_of (cancelAll st) k' = Some Summarizing" for k'
    using that foldl_revert_summarizing[of "store st" "pending (q st)" k']
    by (simp add: cancelAll_def status_of_def)
qed (simp_all add: cancelAll_def)

lemma resume_inv:
  assumes "queue_inv st" and "job st = Settled k outcome"
  shows "queue_inv (processNext_resume k outcome st)"
proof -
  have ns: "status_of st k' \<noteq> Some Summarizing" for k'
    using inv_not_summarizing[OF assms(1)] assms(2) by simp
  have a: "activeId (q st) = Some k" "processing (q st)" "timers st = 0"
    using assms by (auto simp: queue_inv_def)
  then have kp: "k \<notin> set (pending (q st))" using assms(1) by (simp add: queue_inv_def)
  let ?st' = "processNext_resume k outcome st"
  have keys: "store_keys ?st' = store_keys st"
    by (auto simp: processNext_resume_def Let_def store_keys_def keys_updateScene split: option.splits)
  have so: "status_of ?st' k' = (if k' = k \<and> outcome = RejectedAbort \<and> status_of st k = Some Summarizing
                              then Some Defined else status_of st k')" for k'
    by (auto simp: processNext_resume_def Let_def status_of_def getScene_updateScene split: option.splits)
  have q': "pending (q ?st') = pending (q st)" "activeId (q ?st') = None"
    "processing (q ?st') = processing (q st)" "job ?st' = Idle" "timers ?st' = Suc (timers st)"
    by (simp_all add: processNext_resume_def Let_def)
  show ?thesis
    unfolding queue_inv_def keys q' so
    using assms(1) a ns by (auto simp: queue_inv_def)
qed

lemma step_inv:
  assumes "queue_inv st"
  shows "queue_inv (step ev e st)"
proof (cases e)
  case (Add k)
  then show ?thesis using add_inv[OF assms] by (simp add: step_def)
next
  case (AddAll ks)
  then show ?thesis using addAll_inv[OF assms] by (simp add: step_def)
next
  case (Cancel k)
  then show ?thesis using cancel_inv[OF assms] by (simp add: step_def)
next
  case CancelAll
  then show ?thesis using cancelAll_inv[OF assms] by (simp add: step_def)
next
  case (GenDone r)
  show ?thesis
  proof (cases "job st")
    case (Generating k a m "is")
    then have "ready k st" using inv_ready[OF assms] by simp
    with summarizeScene_resume_ok[of k st a m "is" r] have "queue_inv (summarizeScene_resume k a m is r st)"
      using ready_lands_inv by blast
    then show ?thesis using GenDone Generating by (simp add: step_def)
  qed (use assms GenDone in \<open>simp_all add: step_def\<close>)
next
  case (SaveDone r)
  show ?thesis
  proof (cases "job st")
    case (Saving k)
    then have rd: "ready k st" using inv_ready[OF assms] by simp
    have ns: "status_of st k \<noteq> Some Summarizing"
      using inv_not_summarizing[OF assms] Saving by simp
    show ?thesis
    proof (cases r)
      case Saved
      then show ?thesis
        using SaveDone Saving settled_ok[OF ns, of Fulfilled] ready_lands_inv[OF rd]
        by (simp add: step_def)
    next
      case (SaveFailed err)
      then show ?thesis
        using SaveDone Saving catch_exit_ok[of k st err] ready_lands_inv[OF rd]
        by (simp add: step_def)
    qed
  next
    case (RetrySaving k)
    then have rd: "ready k st" using inv_ready[OF assms] by simp
    have ns: "status_of st k \<noteq> Some Summarizing"
      using inv_not_summarizing[OF assms] RetrySaving by simp
    show ?thesis
    proof (cases r)
      case Saved
      then show ?thesis
        using SaveDone RetrySaving summarizeScene_start_ok[OF ns, of ev] ready_lands_inv[OF rd]
        by (simp add: step_def)
    next
      case (SaveFailed err)
      then show ?thesis
        using SaveDone RetrySaving settled_ok[OF ns] ready_lands_inv[OF rd]
        by (simp add: step_def)
    qed
  qed (use assms SaveDone in \<open>simp_all add: step_def\<close>)
next
  case Resume
  show ?thesis
  proof (cases "job st")
    case (Settled k outcome)
    then show ?thesis using Resume resume_inv[OF assms Settled] by (simp add: step_def)
  qed (use assms Resume in \<open>simp_all add: step_def\<close>)
next
  case Timer
  show ?thesis
  proof (cases "timers st > 0")
    case True
    with assms have j: "job st = Idle" and t: "timers st = 1" by (auto simp: queue_inv_def)
    let ?st1 = "st\<lparr>timers := timers st - 1\<rparr>"
    have "queue_inv ?st1" using assms by (simp add: queue_inv_def store_keys_def status_of_def)
    then have "queue_inv (processNext ev ?st1)"
      by (rule processNext_inv) (simp_all add: j t)
    then show ?thesis using Timer True by (simp add: step_def)
  next
    case False
    then show ?thesis using assms Timer by (simp add: step_def)
  qed
qed

lemma run_inv: "queue_inv st \<Longrightarrow> queue_inv (run ev es st)"
  unfolding run_def by (induction es arbitrary: st) (simp_all add: step_inv)

lemma start_inv:
  assumes "queue_start st"
  shows "queue_inv st"
proof -
  from assms have d: "distinct (map fst (scenes (getSceneFoldData (store st))))"
    and e: "filter (\<lambda>(k, sc). status sc = Summarizing) (scenes (getSceneFoldData (store st))) = []"
    by (simp_all add: queue_start_def store_keys_def summarizing_scenes_def)
  have "status_of st k \<noteq> Some Summarizing" for k
  proof
    assume "status_of st k = Some Summarizing"
    then obtain sc where "map_of (scenes (getSceneFoldData (store st))) k = Some sc" "status sc = Summarizing"
      by (auto simp: status_of_def getScene_def)
    then have "(k, sc) \<in> set (filter (\<lambda>(k, sc). status sc = Summarizing) (scenes (getSceneFoldData (store st))))"
      by (auto dest: map_of_SomeD)
    with e show False by simp
  qed
  then show ?thesis
    using assms by (simp add: queue_start_def queue_inv_def queue_idle_def store_keys_def)
qed

lemma distinct_all_same: "distinct xs \<Longrightarrow> (\<And>x. x \<in> set xs \<Longrightarrow> x = k) \<Longrightarrow> length xs \<le> 1"
  by (cases xs; cases "tl xs") auto

lemma inv_summarizing:
  assumes "queue_inv st"
  shows "length (summarizing_scenes st) \<le> 1 \<and>
         set (summarizing_scenes st) \<subseteq> set_option (activeId (q st)) \<and>
         set (summarizing_scenes st) \<subseteq> set_option (generating (job st))"
proof -
  let ?es = "scenes (getSceneFoldData (store st))"
  have d: "distinct (map fst ?es)" using assms by (simp add: queue_inv_def store_keys_def)
  have g: "generating (job st) = Some k" if "k \<in> set (summarizing_scenes st)" for k
  proof -
    from that obtain sc where "(k, sc) \<in> set ?es" "status sc = Summarizing"
      by (auto simp: summarizing_scenes_def)
    with d have "status_of st k = Some Summarizing"
      by (simp add: status_of_def getScene_def)
    with assms show ?thesis by (simp add: queue_inv_def)
  qed
  then have a: "activeId (q st) = Some k" if "k \<in> set (summarizing_scenes st)" for k
    using that assms generating_job_scene by (auto simp: queue_inv_def)
  have ds: "distinct (summarizing_scenes st)"
    unfolding summarizing_scenes_def using d by (simp add: distinct_map_filter)
  have "length (summarizing_scenes st) \<le> 1"
  proof (cases "summarizing_scenes st")
    case Nil
    then show ?thesis by simp
  next
    case (Cons k ks)
    then have "generating (job st) = Some k" using g by simp
    then have "\<And>x. x \<in> set (summarizing_scenes st) \<Longrightarrow> x = k" using g by fastforce
    with ds show ?thesis by (rule distinct_all_same)
  qed
  then show ?thesis using g a by auto
qed

text \<open>
  C9: from a freshly built queue, after any sequence of calls of the queue's interface
  and of events that resume the worker, at most one scene has status \<open>summarizing\<close>, and
  it is the active scene; every pending scene (that exists in the store) is \<open>queued\<close>; and
  the events that resume the worker or the queue loop leave the pending list as it is.
\<close>

theorem C9_single_concurrency:
  assumes "queue_start st0"
  shows "length (summarizing_scenes (run ev es st0)) \<le> 1 \<and>
         set (summarizing_scenes (run ev es st0)) \<subseteq> set_option (activeId (q (run ev es st0))) \<and>
         (\<forall>k \<in> set (pending (q (run ev es st0))).
            status_of (run ev es st0) k = Some Queued \<or> status_of (run ev es st0) k = None) \<and>
         pending (q (step ev (GenDone r) (run ev es st0))) = pending (q (run ev es st0)) \<and>
         pending (q (step ev (SaveDone sr) (run ev es st0))) = pending (q (run ev es st0)) \<and>
         pending (q (step ev Resume (run ev es st0))) = pending (q (run ev es st0))"
proof -
  let ?st = "run ev es st0"
  have inv: "queue_inv ?st" using assms by (intro run_inv start_inv)
  have p: "\<forall>k \<in> set (pending (q ?st)). status_of ?st k = Some Queued \<or> status_of ?st k = None"
    using inv by (simp add: queue_inv_def)
  have g: "pending (q (step ev (GenDone r) ?st)) = pending (q ?st)"
  proof (cases "job ?st")
    case (Generating k a m "is")
    then show ?thesis
      using summarizeScene_resume_ok[of k ?st a m "is" r] by (simp add: step_def touches_def)
  qed (simp_all add: step_def)
  have s: "pending (q (step ev (SaveDone sr) ?st)) = pending (q ?st)"
  proof (cases "job ?st")
    case (Saving k)
    then show ?thesis
      using catch_exit_ok[of k ?st] by (cases sr) (simp_all add: step_def touches_def)
  next
    case (RetrySaving k)
    have "status_of ?st k \<noteq> Some Summarizing"
      using inv_not_summarizing[OF inv] RetrySaving by simp
    from summarizeScene_start_ok[OF this, of ev] RetrySaving show ?thesis
      by (cases sr) (simp_all add: step_def touches_def)
  qed (simp_all add: step_def)
  have r: "pending (q (step ev Resume ?st)) = pending (q ?st)"
    by (cases "job ?st") (simp_all add: step_def processNext_resume_def Let_def)
  show ?thesis
    using inv_summarizing[OF inv] p g s r by simp
qed

theorem C9_single_concurrency_witness:
  "queue_start sys_three \<and>
   summarizing_scenes (run env_two_retries [Add ''S1'', Add ''S2'', Add ''S3''] sys_three) = [''S1''] \<and>
   activeId (q (run env_two_retries [Add ''S1'', Add ''S2'', Add ''S3''] sys_three)) = Some ''S1'' \<and>
   pending (q (run env_two_retries [Add ''S1'', Add ''S2'', Add ''S3''] sys_three)) = [''S2'', ''S3''] \<and>
   status_of (run env_two_retries [Add ''S1'', Add ''S2'', Add ''S3''] sys_three) ''S2'' = Some Queued \<and>
   status_of (run env_two_retries [Add ''S1'', Add ''S2'', Add ''S3''] sys_three) ''S3'' = Some Queued \<and>
   length (summarizing_scenes (run env_two_retries [Add ''S1'', Add ''S2'', Add ''S3''] sys_three)) \<le> 1"
proof -
  have h: "queue_start sys_three"
    by (simp add: queue_start_def sys_three_def store_keys_def summarizing_scenes_def
          store_three_with_def store_of_def getSceneFoldData_def scene_with_def)
  have e: "summarizing_scenes (sys_three_active [''S2'', ''S3''] Queued) = [''S1'']"
    "status_of (sys_three_active [''S2'', ''S3''] Queued) ''S2'' = Some Queued"
    "status_of (sys_three_active [''S2'', ''S3''] Queued) ''S3'' = Some Queued"
    by (simp_all add: summarizing_scenes_def status_of_def sys_three_active_def store_three_with_def
          store_of_def getScene_def getSceneFoldData_def scene_with_def)
  show ?thesis
    using C9_single_concurrency[OF h, of env_two_retries "[Add ''S1'', Add ''S2'', Add ''S3'']"] h e
    by (simp add: run_add_three sys_three_active_def)
qed

section \<open>Scene creation and overlap\<close>

lemma msg_uuid_chat_at_live: "live c u \<longleftrightarrow> (\<exists>i. msg_uuid (chat_at c i) = Some u)"
proof
  assume "live c u"
  then obtain n where n: "n < length c" "msg_uuid (c ! n) = Some u"
    by (auto simp: live_def in_set_conv_nth)
  then have "msg_uuid (chat_at c (int n)) = Some u" by (simp add: chat_at_def)
  then show "\<exists>i. msg_uuid (chat_at c i) = Some u" ..
next
  assume "\<exists>i. msg_uuid (chat_at c i) = Some u"
  then show "live c u" using chat_at_uuid_live by (auto simp: live_def)
qed

lemma positions_meet:
  "set (scene_positions c sc) \<inter> set (scene_positions c sc') \<noteq> {} \<longleftrightarrow>
     (\<exists>u \<in> set (sourceMessageUUIDs sc) \<inter> set (sourceMessageUUIDs sc'). live c u)"
proof
  assume "set (scene_positions c sc) \<inter> set (scene_positions c sc') \<noteq> {}"
  then obtain p where "p \<in> set (scene_positions c sc)" "p \<in> set (scene_positions c sc')" by blast
  then obtain u u' where p: "p \<noteq> - 1" "u \<in> set (sourceMessageUUIDs sc)" "u' \<in> set (sourceMessageUUIDs sc')"
    "findMessageIndexByUUID c u None = p" "findMessageIndexByUUID c u' None = p"
    unfolding scene_positions_def by auto
  then have "linear_scan c u 0 \<noteq> - 1" "linear_scan c u' 0 \<noteq> - 1" "linear_scan c u 0 = linear_scan c u' 0"
    by (simp_all add: findMessageIndexByUUID_def)
  with linear_scan_pos[of c u 0] linear_scan_pos[of c u' 0] have "u = u'" by simp
  moreover have "live c u" using p by (metis find_live live_def)
  ultimately show "\<exists>u \<in> set (sourceMessageUUIDs sc) \<inter> set (sourceMessageUUIDs sc'). live c u"
    using p by auto
next
  assume "\<exists>u \<in> set (sourceMessageUUIDs sc) \<inter> set (sourceMessageUUIDs sc'). live c u"
  then obtain u where u: "u \<in> set (sourceMessageUUIDs sc)" "u \<in> set (sourceMessageUUIDs sc')" "live c u"
    by auto
  then have "findMessageIndexByUUID c u None \<noteq> - 1" by (simp add: find_live live_def)
  with u have "findMessageIndexByUUID c u None \<in> set (scene_positions c sc) \<inter> set (scene_positions c sc')"
    by (auto simp: scene_positions_def)
  then show "set (scene_positions c sc) \<inter> set (scene_positions c sc') \<noteq> {}" by blast
qed

lemma apart_iff: "apart c sc sc' \<longleftrightarrow> (\<forall>u \<in> set (sourceMessageUUIDs sc) \<inter> set (sourceMessageUUIDs sc'). \<not> live c u)"
  using positions_meet[of c sc sc'] by (auto simp: apart_def)

lemma apart_sym: "apart c sc sc' \<Longrightarrow> apart c sc' sc"
  by (auto simp: apart_def)

lemma no_overlap_list_sorted_wrt: "no_overlap_list c xs = sorted_wrt (apart c) xs"
  by (induction xs) (auto simp: list_all_iff apart_def)

lemma values_update: "snd ` set (AList.update k v al) \<subseteq> insert v (snd ` set al)"
  by (induction al) auto

lemma sorted_wrt_update:
  assumes "sorted_wrt R (map snd al)" and "\<And>e. e \<in> set al \<Longrightarrow> R (snd e) v \<and> R v (snd e)"
  shows "sorted_wrt R (map snd (AList.update k v al))"
  using assms
proof (induction al)
  case Nil
  then show ?case by simp
next
  case (Cons e al)
  obtain k' v' where e: "e = (k', v')" by (cases e)
  show ?case
  proof (cases "k' = k")
    case True
    then show ?thesis using Cons.prems by (auto simp: e)
  next
    case False
    have "sorted_wrt R (map snd (AList.update k v al))"
      using Cons by auto
    moreover have "R v' x" if "x \<in> snd ` set (AList.update k v al)" for x
    proof -
      from that values_update[of k v al] have "x = v \<or> x \<in> snd ` set al" by auto
      moreover have "R v' v" using Cons.prems(2)[of "(k', v')"] by (simp add: e)
      ultimately show ?thesis using Cons.prems(1) by (auto simp: e)
    qed
    ultimately show ?thesis using False by (auto simp: e)
  qed
qed


lemma ensureMessageUUID_cases:
  assumes "ensureMessageUUID m g = (u, m', g')"
  shows "msg_uuid (Some m') = Some u \<and>
         ((u = g 0 \<and> g' = (\<lambda>n. g (Suc n))) \<or> (msg_uuid (Some m) = Some u \<and> g' = g))"
  using assms
  by (auto simp: ensureMessageUUID_def Let_def mint_def msg_uuid_def truthy_def empty_extra_def
        split: option.splits if_splits)

lemma tag_source_uuid: "msg_uuid (Some (tag_source sid m)) = msg_uuid (Some m)"
  by (cases "extra m") (simp_all add: tag_source_def msg_uuid_def Let_def)

lemma chat_at_update:
  "chat_at c j = Some m \<Longrightarrow> chat_at (c[nat j := x]) i = (if i = j then x else chat_at c i)"
  by (auto simp: chat_at_def split: if_splits)

lemma createScene_step_cases:
  assumes "createScene_step sid (c1, s1, g1) j = (c2, s2, g2)"
  shows "(c2 = c1 \<and> s2 = s1 \<and> g2 = g1) \<or>
         (\<exists>u. s2 = s1 @ [u] \<and> msg_uuid (chat_at c2 j) = Some u \<and>
              (\<forall>i. i \<noteq> j \<longrightarrow> chat_at c2 i = chat_at c1 i) \<and>
              ((u = g1 0 \<and> g2 = (\<lambda>n. g1 (Suc n))) \<or> (msg_uuid (chat_at c1 j) = Some u \<and> g2 = g1)))"
proof (cases "chat_at c1 j")
  case None
  then show ?thesis using assms by (simp add: createScene_step_def)
next
  case (Some m)
  obtain u m' g' where en: "ensureMessageUUID m g1 = (u, m', g')"
    by (cases "ensureMessageUUID m g1") auto
  from assms Some en have r: "c2 = c1[nat j := Some (tag_source sid m')]" "s2 = s1 @ [u]" "g2 = g'"
    by (simp_all add: createScene_step_def)
  from ensureMessageUUID_cases[OF en] show ?thesis
    using Some by (auto simp: r chat_at_update tag_source_uuid)
qed

lemma createScene_fold_inv:
  "foldl (createScene_step sid) (c0, s0, g0) js = (c', s', g') \<Longrightarrow>
     (\<forall>i. msg_uuid (chat_at c' i) = msg_uuid (chat_at c0 i) \<or> (\<exists>n. msg_uuid (chat_at c' i) = Some (g0 n))) \<and>
     (\<forall>u \<in> set s'. u \<in> set s0 \<or> (\<exists>n. u = g0 n) \<or> (\<exists>i \<in> set js. msg_uuid (chat_at c0 i) = Some u)) \<and>
     (\<exists>k. g' = (\<lambda>n. g0 (n + k)))"
proof (induction js arbitrary: c' s' g' rule: rev_induct)
  case Nil
  then show ?case by (auto intro: exI[of _ 0])
next
  case (snoc j js)
  obtain c1 s1 g1 where f: "foldl (createScene_step sid) (c0, s0, g0) js = (c1, s1, g1)"
    by (cases "foldl (createScene_step sid) (c0, s0, g0) js") auto
  from snoc.IH[OF f] have
    a: "\<And>i. msg_uuid (chat_at c1 i) = msg_uuid (chat_at c0 i) \<or> (\<exists>n. msg_uuid (chat_at c1 i) = Some (g0 n))"
    and b: "\<And>u. u \<in> set s1 \<Longrightarrow> u \<in> set s0 \<or> (\<exists>n. u = g0 n) \<or> (\<exists>i \<in> set js. msg_uuid (chat_at c0 i) = Some u)"
    and "\<exists>k. g1 = (\<lambda>n. g0 (n + k))"
    by auto
  then obtain k where k: "g1 = (\<lambda>n. g0 (n + k))" by blast
  from snoc.prems f have st: "createScene_step sid (c1, s1, g1) j = (c', s', g')" by simp
  from createScene_step_cases[OF st] show ?case
  proof
    assume "c' = c1 \<and> s' = s1 \<and> g' = g1"
    then show ?thesis using a b k by auto
  next
    assume "\<exists>u. s' = s1 @ [u] \<and> msg_uuid (chat_at c' j) = Some u \<and>
              (\<forall>i. i \<noteq> j \<longrightarrow> chat_at c' i = chat_at c1 i) \<and>
              ((u = g1 0 \<and> g' = (\<lambda>n. g1 (Suc n))) \<or> (msg_uuid (chat_at c1 j) = Some u \<and> g' = g1))"
    then obtain u where u: "s' = s1 @ [u]" "msg_uuid (chat_at c' j) = Some u"
      "\<And>i. i \<noteq> j \<Longrightarrow> chat_at c' i = chat_at c1 i"
      "(u = g1 0 \<and> g' = (\<lambda>n. g1 (Suc n))) \<or> (msg_uuid (chat_at c1 j) = Some u \<and> g' = g1)"
      by blast
    have uo: "(\<exists>n. u = g0 n) \<or> msg_uuid (chat_at c0 j) = Some u"
      using u(4) a[of j] k by auto
    have g: "\<exists>k'. g' = (\<lambda>n. g0 (n + k'))"
      using u(4) k by (auto intro: exI[of _ "Suc k"] exI[of _ k])
    have a': "msg_uuid (chat_at c' i) = msg_uuid (chat_at c0 i) \<or> (\<exists>n. msg_uuid (chat_at c' i) = Some (g0 n))" for i
      using a[of i] u(2,3) uo by (cases "i = j") auto
    have b': "v \<in> set s0 \<or> (\<exists>n. v = g0 n) \<or> (\<exists>i \<in> set (js @ [j]). msg_uuid (chat_at c0 i) = Some v)"
      if "v \<in> set s'" for v
      using that b[of v] uo by (auto simp: u(1))
    show ?thesis using a' b' g by blast
  qed
qed

lemma overlap_nil:
  assumes "findOverlappingScenes md c lo hi = []" and "lo \<le> i" and "i \<le> hi"
  shows "getMessageScenes c i = []"
proof -
  from assms(1) have "concat (map (getMessageScenes c) [lo..hi]) = []"
    by (metis findOverlappingScenes_def set_empty set_remdups set_rev)
  then show ?thesis using assms(2,3) by auto
qed


lemma claimed_tagged:
  assumes "tags_cover_claims md c" and "(k, sc) \<in> set (scenes (getSceneFoldData md))"
    and "msg_uuid (chat_at c i) = Some u" and "u \<in> set (sourceMessageUUIDs sc)"
  shows "k \<in> set (getMessageScenes c i)"
proof -
  from assms(3) have "chat_at c i \<noteq> None" by (cases "chat_at c i") (simp_all add: msg_uuid_def)
  then have i: "0 \<le> i" "nat i < length c" by (auto simp: chat_at_def split: if_splits)
  from assms(2,3,4) have "k \<in> set (claimed_by md c i)"
    by (force simp: claimed_by_def)
  moreover have "nat i \<in> set [0..<length c]" using i by simp
  with assms(1) have "set (claimed_by md c (int (nat i))) \<subseteq> set (getMessageScenes c (int (nat i)))"
    unfolding tags_cover_claims_def list_all_iff by blast
  ultimately show ?thesis using i by auto
qed

lemma createScene_no_overlap:
  assumes tc: "tags_cover_claims md c"
    and fr: "\<And>n k sc. (k, sc) \<in> set (scenes (getSceneFoldData md)) \<Longrightarrow> g n \<notin> set (sourceMessageUUIDs sc)"
    and ov: "findOverlappingScenes md c lo hi = []"
    and cr: "createScene md c lo hi g prompt now = (sc, md', c', g')"
    and no: "no_overlap md c"
  shows "no_overlap md' c'"
proof -
  let ?al = "scenes (getSceneFoldData md)"
  obtain c1 s1 g1 where f: "foldl (createScene_step (g 0)) (c, [], \<lambda>n. g (Suc n)) [lo..hi] = (c1, s1, g1)"
    by (cases "foldl (createScene_step (g 0)) (c, [], \<lambda>n. g (Suc n)) [lo..hi]") auto
  from cr f have r: "c' = c1" "sourceMessageUUIDs sc = s1" "md' = put_scenes md (AList.update (g 0) sc ?al)"
    by (auto simp: createScene_def mint_def Let_def)
  from createScene_fold_inv[OF f] have
    a: "\<And>i. msg_uuid (chat_at c1 i) = msg_uuid (chat_at c i) \<or> (\<exists>n. msg_uuid (chat_at c1 i) = Some (g (Suc n)))"
    and b: "\<And>u. u \<in> set s1 \<Longrightarrow> (\<exists>n. u = g (Suc n)) \<or> (\<exists>i \<in> set [lo..hi]. msg_uuid (chat_at c i) = Some u)"
    by auto
  have old_live: "live c u" if "live c1 u" "(k, x) \<in> set ?al" "u \<in> set (sourceMessageUUIDs x)" for u k x
  proof -
    from that(1) obtain i where "msg_uuid (chat_at c1 i) = Some u"
      by (auto simp: msg_uuid_chat_at_live)
    with a[of i] fr[OF that(2)] that(3) have "msg_uuid (chat_at c i) = Some u" by auto
    then show ?thesis by (auto simp: msg_uuid_chat_at_live)
  qed
  have old: "sorted_wrt (apart c1) (map snd ?al)"
  proof -
    have "sorted_wrt (apart c) (map snd ?al)"
      using no by (simp add: no_overlap_def no_overlap_list_sorted_wrt)
    moreover have "apart c1 x y" if "x \<in> set (map snd ?al)" "y \<in> set (map snd ?al)" "apart c x y" for x y
    proof -
      from that(1) obtain k where "(k, x) \<in> set ?al" by auto
      with that(3) old_live show ?thesis unfolding apart_iff by blast
    qed
    ultimately show ?thesis by (rule sorted_wrt_mono_rel[rotated])
  qed
  have new: "apart c1 (snd e) sc \<and> apart c1 sc (snd e)" if "e \<in> set ?al" for e
  proof -
    obtain k x where e: "e = (k, x)" by (cases e)
    have "\<not> live c1 u" if u: "u \<in> set (sourceMessageUUIDs x)" "u \<in> set s1" for u
    proof -
      from b[OF u(2)] fr[of k x] \<open>e \<in> set ?al\<close> u(1)
      obtain i where i: "i \<in> set [lo..hi]" "msg_uuid (chat_at c i) = Some u" by (auto simp: e)
      from claimed_tagged[OF tc _ i(2) u(1)] \<open>e \<in> set ?al\<close>
      have "k \<in> set (getMessageScenes c i)" by (simp add: e)
      moreover from overlap_nil[OF ov] i(1) have "getMessageScenes c i = []" by simp
      ultimately show ?thesis by simp
    qed
    then have "apart c1 x sc" unfolding apart_iff r by auto
    then show ?thesis using apart_sym by (auto simp: e)
  qed
  have "sorted_wrt (apart c1) (map snd (AList.update (g 0) sc ?al))"
    using old new by (rule sorted_wrt_update)
  then show ?thesis
    by (simp add: r no_overlap_def no_overlap_list_sorted_wrt put_scenes_def getSceneFoldData_def)
qed


subsection \<open>The example: a scene over 3..5, then a request for 4..6\<close>

lemma upto_3_5: "[3..5] = [3, 4, 5::int]"
  by code_simp

lemma upto_4_6: "[4..6] = [4, 5, 6::int]"
  by code_simp

lemmas msg_defs = getMessageScenes_def chat_at_def msg_with_def tagged_def tag_source_def msg_uuid_def Let_def

lemma overlaps_3_5: "findOverlappingScenes (store_of []) chat_seven 3 5 = []"
  unfolding findOverlappingScenes_def upto_3_5 by (simp add: chat_seven_def msg_defs)

lemma overlaps_4_6: "findOverlappingScenes store_seven_scene chat_seven_scene 4 6 = [''x'']"
  unfolding findOverlappingScenes_def upto_4_6 by (simp add: chat_seven_scene_def msg_defs)

lemma createScene_3_5:
  "createScene (store_of []) chat_seven 3 5 gen_x None 7 =
     ((scene_with ''x'' [''m3'', ''m4'', ''m5''] None Defined)\<lparr>createdAt := 7\<rparr>,
      store_seven_scene, chat_seven_scene, (\<lambda>n. gen_x (Suc n)))"
  unfolding createScene_def upto_3_5
  by (simp add: chat_seven_def chat_seven_scene_def msg_defs mint_def createScene_step_def
        ensureMessageUUID_def truthy_def gen_x_def store_of_def put_scenes_def getSceneFoldData_def
        store_seven_scene_def scene_with_def)

lemma len_seven: "length chat_seven = 7" "length chat_seven_scene = 7"
  by (simp_all add: chat_seven_def chat_seven_scene_def)

section \<open>Duplication reconciliation\<close>

lemma positions_of_snoc:
  "positions_of (pre @ [m]) u = positions_of pre u @ (if msg_uuid m = Some u then [length pre] else [])"
proof -
  have "filter (\<lambda>i. msg_uuid ((pre @ [m]) ! i) = Some u) [0..<length pre]
        = filter (\<lambda>i. msg_uuid (pre ! i) = Some u) [0..<length pre]"
    by (rule filter_cong) (auto simp: nth_append)
  then show ?thesis by (simp add: positions_of_def)
qed

lemma positions_of_nonempty: "positions_of c u \<noteq> [] \<longleftrightarrow> Some u \<in> set (map msg_uuid c)"
proof
  assume "positions_of c u \<noteq> []"
  then obtain i where "i < length c" "msg_uuid (c ! i) = Some u"
    by (auto simp: positions_of_def filter_empty_conv)
  then show "Some u \<in> set (map msg_uuid c)" by (metis length_map nth_map nth_mem)
next
  assume "Some u \<in> set (map msg_uuid c)"
  then obtain i where "i < length c" "msg_uuid (c ! i) = Some u"
    by (auto simp: in_set_conv_nth)
  then show "positions_of c u \<noteq> []" by (auto simp: positions_of_def filter_empty_conv)
qed

lemma occ_inv_step:
  assumes "occ_inv pre occ"
  shows "occ_inv (pre @ [m])
           (case msg_uuid m of None \<Rightarrow> occ
            | Some uuid \<Rightarrow> if uuid = [] then occ
                else AList.update uuid ((case map_of occ uuid of None \<Rightarrow> [] | Some idxs \<Rightarrow> idxs) @ [length pre]) occ)"
proof (cases "msg_uuid m")
  case None
  then show ?thesis
    using assms by (auto simp: occ_inv_def positions_of_snoc)
next
  case (Some v)
  show ?thesis
  proof (cases "v = []")
    case True
    then show ?thesis using assms Some by (auto simp: occ_inv_def positions_of_snoc)
  next
    case False
    let ?old = "(case map_of occ v of None \<Rightarrow> [] | Some idxs \<Rightarrow> idxs)"
    let ?occ' = "AList.update v (?old @ [length pre]) occ"
    have d: "distinct (map fst occ)" using assms by (simp add: occ_inv_def)
    have old: "?old = positions_of pre v"
    proof (cases "map_of occ v")
      case None
      then have "v \<notin> fst ` set occ" by (simp add: map_of_eq_None_iff)
      with assms False have "Some v \<notin> set (map msg_uuid pre)" by (auto simp: occ_inv_def)
      then have "positions_of pre v = []" using positions_of_nonempty by blast
      with None show ?thesis by simp
    next
      case (Some idxs)
      then have "(v, idxs) \<in> set occ" by (rule map_of_SomeD)
      with assms have "idxs = positions_of pre v" by (auto simp: occ_inv_def)
      with Some show ?thesis by simp
    qed
    have mo: "map_of ?occ' = (map_of occ)(v \<mapsto> positions_of (pre @ [m]) v)"
      using Some by (simp add: update_conv' old positions_of_snoc)
    have d': "distinct (map fst ?occ')" using d by (rule distinct_update)
    have e: "u \<noteq> [] \<and> idxs = positions_of (pre @ [m]) u \<and> idxs \<noteq> []" if "(u, idxs) \<in> set ?occ'" for u idxs
    proof -
      from that d' have m: "map_of ?occ' u = Some idxs" by simp
      show ?thesis
      proof (cases "u = v")
        case True
        with m mo have "idxs = positions_of (pre @ [m]) v" by simp
        then show ?thesis using True False Some by (simp add: positions_of_snoc)
      next
        case ne: False
        with m mo have "map_of occ u = Some idxs" by simp
        then have "(u, idxs) \<in> set occ" by (rule map_of_SomeD)
        with assms have "u \<noteq> [] \<and> idxs = positions_of pre u \<and> idxs \<noteq> []" by (auto simp: occ_inv_def)
        then show ?thesis using ne Some by (auto simp: positions_of_snoc)
      qed
    qed
    have k: "u \<in> fst ` set ?occ'" if "u \<noteq> []" "Some u \<in> set (map msg_uuid (pre @ [m]))" for u
    proof (cases "u = v")
      case True
      then show ?thesis by (simp add: dom_update)
    next
      case ne: False
      with that Some have "Some u \<in> set (map msg_uuid pre)" by auto
      with assms that(1) have "u \<in> fst ` set occ" by (auto simp: occ_inv_def)
      then show ?thesis by (simp add: dom_update)
    qed
    show ?thesis
      unfolding occ_inv_def using d' e k Some False by auto
  qed
qed

lemma occ_inv_from:
  "occ_inv pre occ \<Longrightarrow> occ_inv (pre @ ms) (uuidOccurrences_from ms (length pre) occ)"
proof (induction ms arbitrary: pre occ)
  case Nil
  then show ?case by simp
next
  case (Cons m ms)
  from occ_inv_step[OF Cons.prems, of m]
  have "occ_inv ((pre @ [m]) @ ms)
          (uuidOccurrences_from ms (length (pre @ [m]))
             (case msg_uuid m of None \<Rightarrow> occ
              | Some uuid \<Rightarrow> if uuid = [] then occ
                else AList.update uuid ((case map_of occ uuid of None \<Rightarrow> [] | Some idxs \<Rightarrow> idxs) @ [length pre]) occ))"
    by (rule Cons.IH)
  then show ?case by (cases "msg_uuid m") auto
qed

lemma occ_inv_uuidOccurrences: "occ_inv c (uuidOccurrences c)"
  using occ_inv_from[of "[]" "[]" c] by (simp add: uuidOccurrences_def occ_inv_def)

lemma tail_of_sorted:
  assumes "sorted xs" and "distinct xs"
  shows "set (drop 1 xs) = {i \<in> set xs. \<exists>j \<in> set xs. j < (i::nat)}"
proof (cases xs)
  case Nil
  then show ?thesis by simp
next
  case (Cons x r)
  with assms have "\<forall>i \<in> set r. x < i" by (auto simp: le_less)
  then show ?thesis using Cons assms by auto
qed

lemma positions_of_sorted: "sorted (positions_of c u)" "distinct (positions_of c u)"
  by (simp_all add: positions_of_def sorted_wrt_filter)

lemma set_positions_of: "set (positions_of c u) = {i. i < length c \<and> msg_uuid (c ! i) = Some u}"
  by (auto simp: positions_of_def)

lemma repairs_iff:
  "(u, i) \<in> set (repairs c) \<longleftrightarrow>
     i < length c \<and> msg_uuid (c ! i) = Some u \<and> u \<noteq> [] \<and> (\<exists>j<i. msg_uuid (c ! j) = Some u)"
proof
  assume "(u, i) \<in> set (repairs c)"
  then obtain idxs where e: "(u, idxs) \<in> set (uuidOccurrences c)" and i: "i \<in> set (drop 1 idxs)"
    by (auto simp: repairs_def)
  with occ_inv_uuidOccurrences[of c] have u: "u \<noteq> []" "idxs = positions_of c u"
    by (auto simp: occ_inv_def)
  from i show "i < length c \<and> msg_uuid (c ! i) = Some u \<and> u \<noteq> [] \<and> (\<exists>j<i. msg_uuid (c ! j) = Some u)"
    unfolding u(2) tail_of_sorted[OF positions_of_sorted] set_positions_of using u(1) by auto
next
  assume a: "i < length c \<and> msg_uuid (c ! i) = Some u \<and> u \<noteq> [] \<and> (\<exists>j<i. msg_uuid (c ! j) = Some u)"
  then have "Some u \<in> set (map msg_uuid c)" by (metis length_map nth_map nth_mem)
  with a occ_inv_uuidOccurrences[of c] have "u \<in> fst ` set (uuidOccurrences c)"
    by (simp add: occ_inv_def)
  then obtain idxs where e: "(u, idxs) \<in> set (uuidOccurrences c)" by auto
  with occ_inv_uuidOccurrences[of c] have "idxs = positions_of c u" by (auto simp: occ_inv_def)
  moreover have "i \<in> set (drop 1 (positions_of c u))"
  proof -
    from a obtain j where j: "j < i" "msg_uuid (c ! j) = Some u" by blast
    with a have "j < length c" by simp
    with j a show ?thesis
      unfolding tail_of_sorted[OF positions_of_sorted] set_positions_of by blast
  qed
  ultimately show "(u, i) \<in> set (repairs c)"
    using e by (force simp: repairs_def)
qed

lemma distinct_concat_map:
  assumes "distinct (map fst occ)" and "\<And>e. e \<in> set occ \<Longrightarrow> distinct (f e)"
    and "\<And>e e'. e \<in> set occ \<Longrightarrow> e' \<in> set occ \<Longrightarrow> fst e \<noteq> fst e' \<Longrightarrow> set (f e) \<inter> set (f e') = {}"
  shows "distinct (concat (map f occ))"
  using assms
proof (induction occ)
  case Nil
  then show ?case by simp
next
  case (Cons e occ)
  have "set (f e) \<inter> set (f e') = {}" if "e' \<in> set occ" for e'
  proof -
    from that Cons.prems(1) have "fst e \<noteq> fst e'" by auto
    then show ?thesis using Cons.prems(3)[of e e'] that by simp
  qed
  moreover have "distinct (concat (map f occ))"
    using Cons by auto
  ultimately show ?case using Cons.prems(2)[of e] by auto
qed

lemma repairs_distinct: "distinct (map snd (repairs c))"
proof -
  let ?occ = "uuidOccurrences c"
  have m: "map snd (repairs c) = concat (map (\<lambda>e. drop 1 (snd e)) ?occ)"
    by (simp add: repairs_def map_concat comp_def case_prod_beta)
  have inv: "occ_inv c ?occ" by (rule occ_inv_uuidOccurrences)
  have p: "snd e = positions_of c (fst e)" if "e \<in> set ?occ" for e
    using inv that by (auto simp: occ_inv_def)
  show ?thesis
    unfolding m
  proof (rule distinct_concat_map)
    show "distinct (map fst ?occ)" using inv by (simp add: occ_inv_def)
    show "distinct (drop 1 (snd e))" if "e \<in> set ?occ" for e
      using p[OF that] positions_of_sorted(2) by simp
    show "set (drop 1 (snd e)) \<inter> set (drop 1 (snd e')) = {}"
      if "e \<in> set ?occ" "e' \<in> set ?occ" "fst e \<noteq> fst e'" for e e'
    proof -
      have "set (positions_of c (fst e)) \<inter> set (positions_of c (fst e')) = {}"
        using that(3) by (auto simp: set_positions_of)
      then show ?thesis
        using p[OF that(1)] p[OF that(2)] set_drop_subset[of 1 "snd e"] set_drop_subset[of 1 "snd e'"]
        by auto
    qed
  qed
qed

lemma later_occurrence_repairs:
  assumes "i < length c"
  shows "later_occurrence c i \<longleftrightarrow> i \<in> snd ` set (repairs c)"
proof -
  have t: "msg_uuid (c ! i) \<in> set (take i (map msg_uuid c)) \<longleftrightarrow> (\<exists>j<i. msg_uuid (c ! j) = msg_uuid (c ! i))"
    using assms by (auto simp: in_set_conv_nth)
  have r: "i \<in> snd ` set (repairs c) \<longleftrightarrow> (\<exists>u. (u, i) \<in> set (repairs c))"
    by force
  show ?thesis
    unfolding r repairs_iff later_occurrence_def t
    using assms by (cases "msg_uuid (c ! i)") (auto simp: truthy_def)
qed

lemma fold_fix_duplicate: "foldl (fix_duplicate u) st idxs = foldl fixd st (map (Pair u) idxs)"
  by (induction idxs arbitrary: st) (simp_all add: fixd_def)

lemma fold_fix_occurrences:
  "foldl fix_occurrences st occ
     = foldl fixd st (concat (map (\<lambda>(u, idxs). map (Pair u) (drop 1 idxs)) occ))"
proof (induction occ arbitrary: st)
  case Nil
  then show ?case by simp
next
  case (Cons e occ)
  obtain u idxs where e: "e = (u, idxs)" by (cases e)
  have "fix_occurrences st e = foldl fixd st (map (Pair u) (drop 1 idxs))"
    by (simp add: fix_occurrences_def e fold_fix_duplicate)
  then show ?case by (simp add: Cons.IH e)
qed

lemma reconcile_as_fold:
  "reconcileDuplicatedMessages md c g
     = (case foldl fixd (scenes (getSceneFoldData md), c, g, 0) (repairs c) of
          (ss, c', g', fixedCount) \<Rightarrow> (fixedCount, put_scenes md ss, c', g'))"
  by (simp add: reconcileDuplicatedMessages_def fold_fix_occurrences repairs_def)

lemma add_to_scene_keys: "map fst (add_to_scene u n ss t) = map fst ss"
  by (auto simp: add_to_scene_def update_keys map_of_eq_None_iff split: option.splits)

lemma add_to_scene_fold_keys: "map fst (foldl (add_to_scene u n) ss ts) = map fst ss"
  by (induction ts arbitrary: ss) (simp_all add: add_to_scene_keys)

lemma add_to_scene_map_of:
  "map_of (add_to_scene u n ss t) K
     = (if K = t then map_option (\<lambda>sc. sc\<lparr>sourceMessageUUIDs := insert_after u n (sourceMessageUUIDs sc)\<rparr>) (map_of ss K)
        else map_of ss K)"
  by (auto simp: add_to_scene_def update_conv' split: option.splits)

lemma add_to_scene_fold_map_of:
  "map_of (foldl (add_to_scene u n) ss ts) K
     = map_option (\<lambda>sc. sc\<lparr>sourceMessageUUIDs := (insert_after u n ^^ count_list ts K) (sourceMessageUUIDs sc)\<rparr>)
         (map_of ss K)"
proof (induction ts arbitrary: ss)
  case Nil
  then show ?case by (cases "map_of ss K") simp_all
next
  case (Cons t ts)
  show ?case
    by (cases "map_of ss K") (auto simp: Cons.IH add_to_scene_map_of funpow_swap1)
qed

lemma msg_uuid_SomeD:
  assumes "msg_uuid x = Some u"
  obtains m e where "x = Some m" "extra m = Some e" "scene_fold_uuid e = Some u"
  using assms by (auto simp: msg_uuid_def split: option.splits)

lemma fixd_step:
  assumes "i < length c1" and "c1 ! i = Some m"
  shows "fixd (ss1, c1, g1, n1) (u, i)
     = (foldl (add_to_scene u (g1 0)) ss1 (getMessageScenes c1 (int i)),
        c1[i := Some (set_uuid (g1 0) m)], (\<lambda>n. g1 (Suc n)), Suc n1)"
proof -
  have t: "getMessageScenes (c1[i := Some (set_uuid (g1 0) m)]) (int i) = getMessageScenes c1 (int i)"
    using assms by (simp add: getMessageScenes_def chat_at_def set_uuid_def split: option.splits)
  show ?thesis
    using assms by (simp add: fixd_def fix_duplicate_def mint_def update_msg_def chat_at_def Let_def t)
qed

lemma tags_set_uuid:
  assumes "i < length c1" and "c1 ! i = Some m"
  shows "getMessageScenes (c1[i := Some (set_uuid n m)]) j = getMessageScenes c1 j"
proof (cases "j = int i")
  case True
  then show ?thesis
    using assms by (simp add: getMessageScenes_def chat_at_def set_uuid_def split: option.splits)
next
  case False
  then have "nat j \<noteq> i \<or> j < 0" by linarith
  then show ?thesis
    using assms by (auto simp: getMessageScenes_def chat_at_def)
qed

lemma uuid_set_uuid:
  assumes "msg_uuid (Some m) = Some u"
  shows "msg_uuid (Some (set_uuid n m)) = Some n"
  using assms by (auto simp: msg_uuid_def set_uuid_def split: option.splits)

lemma fold_repairs:
  assumes "distinct (map snd R)"
    and "\<And>u i. (u, i) \<in> set R \<Longrightarrow> i < length c \<and> msg_uuid (c ! i) = Some u"
  shows "\<exists>ss' c'. foldl fixd (ss, c, g, 0) R = (ss', c', (\<lambda>m. g (m + length R)), length R) \<and>
      length c' = length c \<and>
      (\<forall>i<length c. i \<notin> snd ` set R \<longrightarrow> c' ! i = c ! i) \<and>
      (\<forall>k<length R. msg_uuid (c' ! snd (R ! k)) = Some (g k)) \<and>
      (\<forall>j. getMessageScenes c' j = getMessageScenes c j) \<and>
      map fst ss' = map fst ss \<and>
      (\<forall>K. map_of ss' K = map_option (\<lambda>sc. sc\<lparr>sourceMessageUUIDs :=
                 foldl (src_step c g K) (sourceMessageUUIDs sc) (List.enumerate 0 R)\<rparr>) (map_of ss K))"
  using assms
proof (induction R rule: rev_induct)
  case Nil
  show ?case by (simp add: option.map_ident)
next
  case (snoc x R)
  obtain u i where x: "x = (u, i)" by (cases x)
  from snoc.prems(1) have d: "distinct (map snd R)" and fresh: "i \<notin> snd ` set R"
    by (simp_all add: x)
  from snoc.prems(2)[of u i] have i: "i < length c" "msg_uuid (c ! i) = Some u" by (auto simp: x)
  have p: "i < length c \<and> msg_uuid (c ! i) = Some u" if "(u, i) \<in> set R" for u i
    using snoc.prems(2)[of u i] that by simp
  from snoc.IH[OF d p] obtain ss1 c1 where
    f: "foldl fixd (ss, c, g, 0) R = (ss1, c1, (\<lambda>m. g (m + length R)), length R)"
    and len: "length c1 = length c"
    and same: "\<forall>i<length c. i \<notin> snd ` set R \<longrightarrow> c1 ! i = c ! i"
    and new: "\<forall>k<length R. msg_uuid (c1 ! snd (R ! k)) = Some (g k)"
    and tags: "\<forall>j. getMessageScenes c1 j = getMessageScenes c j"
    and keys: "map fst ss1 = map fst ss"
    and store: "\<forall>K. map_of ss1 K = map_option (\<lambda>sc. sc\<lparr>sourceMessageUUIDs :=
                 foldl (src_step c g K) (sourceMessageUUIDs sc) (List.enumerate 0 R)\<rparr>) (map_of ss K)"
    by blast
  from same i fresh have ci: "c1 ! i = c ! i" by simp
  with i obtain m where m: "c1 ! i = Some m" "msg_uuid (Some m) = Some u"
    by (cases "c ! i") (auto simp: msg_uuid_def)
  have i1: "i < length c1" using i len by simp
  let ?n = "g (length R)"
  let ?c2 = "c1[i := Some (set_uuid ?n m)]"
  let ?ss2 = "foldl (add_to_scene u ?n) ss1 (getMessageScenes c1 (int i))"
  have step: "foldl fixd (ss, c, g, 0) (R @ [x])
      = (?ss2, ?c2, (\<lambda>m. g (m + length (R @ [x]))), length (R @ [x]))"
    by (simp add: f x fixd_step[OF i1 m(1)])
  have a: "length ?c2 = length c" using len by simp
  have b: "\<forall>j<length c. j \<notin> snd ` set (R @ [x]) \<longrightarrow> ?c2 ! j = c ! j"
    using same by (auto simp: x)
  have c: "\<forall>k<length (R @ [x]). msg_uuid (?c2 ! snd ((R @ [x]) ! k)) = Some (g k)"
  proof (intro allI impI)
    fix k assume k: "k < length (R @ [x])"
    show "msg_uuid (?c2 ! snd ((R @ [x]) ! k)) = Some (g k)"
    proof (cases "k < length R")
      case True
      then have "snd (R ! k) \<in> snd ` set R" by simp
      with fresh have "snd (R ! k) \<noteq> i" by auto
      then show ?thesis using True new by (simp add: nth_append)
    next
      case False
      with k have "k = length R" by simp
      then show ?thesis using i1 uuid_set_uuid[OF m(2)] by (simp add: x)
    qed
  qed
  have dd: "\<forall>j. getMessageScenes ?c2 j = getMessageScenes c j"
    using tags tags_set_uuid[OF i1 m(1)] by simp
  have e: "map fst ?ss2 = map fst ss" using keys by (simp add: add_to_scene_fold_keys)
  have ff: "\<forall>K. map_of ?ss2 K = map_option (\<lambda>sc. sc\<lparr>sourceMessageUUIDs :=
                 foldl (src_step c g K) (sourceMessageUUIDs sc) (List.enumerate 0 (R @ [x]))\<rparr>) (map_of ss K)"
  proof
    fix K
    show "map_of ?ss2 K = map_option (\<lambda>sc. sc\<lparr>sourceMessageUUIDs :=
                 foldl (src_step c g K) (sourceMessageUUIDs sc) (List.enumerate 0 (R @ [x]))\<rparr>) (map_of ss K)"
      using store tags
      by (cases "map_of ss K")
         (simp_all add: add_to_scene_fold_map_of enumerate_append_eq x src_step_def)
  qed
  show ?case
    using step a b c dd e ff by blast
qed

lemma indexOf_found: "u \<notin> set pre \<Longrightarrow> indexOf (pre @ u # post) u = Some (length pre)"
  by (induction pre) auto

lemma indexOf_missing: "u \<notin> set xs \<Longrightarrow> indexOf xs u = None"
  by (induction xs) auto

lemma insert_after_found: "u \<notin> set pre \<Longrightarrow> insert_after u n (pre @ u # post) = pre @ u # n # post"
  by (simp add: insert_after_def indexOf_found)

lemma insert_after_missing: "u \<notin> set xs \<Longrightarrow> insert_after u n xs = xs @ [n]"
  by (simp add: insert_after_def indexOf_missing)

lemma insert_after_found_pow:
  "u \<notin> set pre \<Longrightarrow> (insert_after u n ^^ m) (pre @ u # post) = pre @ u # replicate m n @ post"
  by (induction m) (simp_all add: insert_after_found)

lemma insert_after_missing_pow:
  "u \<notin> set xs \<Longrightarrow> n \<noteq> u \<Longrightarrow> (insert_after u n ^^ m) xs = xs @ replicate m n"
proof (induction m)
  case 0
  then show ?case by simp
next
  case (Suc m)
  then have "u \<notin> set (xs @ replicate m n)" by auto
  from insert_after_missing[OF this] Suc show ?case
    by (simp add: replicate_app_Cons_same)
qed

lemma minted_block_range: "set (minted_block c g K v E) \<subseteq> range g"
  by (auto simp: minted_block_def split: if_splits)

lemma minted_tail_range: "set (minted_tail c g K S E) \<subseteq> range g"
  by (auto simp: minted_tail_def split: if_splits)

lemma sources_closed_form:
  assumes "distinct S" and "\<And>k u i k'. (k, u, i) \<in> set E \<Longrightarrow> g k' \<noteq> u"
  shows "foldl (src_step c g K) S E
           = concat (map (\<lambda>v. v # rev (minted_block c g K v E)) S) @ minted_tail c g K S E"
  using assms(2)
proof (induction E rule: rev_induct)
  case Nil
  show ?case by (simp add: minted_block_def minted_tail_def)
next
  case (snoc e E)
  obtain k u i where e: "e = (k, u, i)" by (cases e)
  let ?m = "count_list (getMessageScenes c (int i)) K"
  let ?f = "\<lambda>v. v # rev (minted_block c g K v E)"
  let ?f' = "\<lambda>v. v # rev (minted_block c g K v (E @ [e]))"
  from snoc.prems[of k u i] have ne: "g k' \<noteq> u" for k' by (simp add: e)
  then have nr: "u \<notin> range g" by auto
  have IH: "foldl (src_step c g K) S E = concat (map ?f S) @ minted_tail c g K S E"
    by (rule snoc.IH) (use snoc.prems in auto)
  have other: "minted_block c g K v (E @ [e]) = minted_block c g K v E" if "v \<noteq> u" for v
    using that by (simp add: minted_block_def e)
  show ?case
  proof (cases "u \<in> set S")
    case True
    then obtain S1 S2 where S: "S = S1 @ u # S2" by (auto simp: in_set_conv_decomp)
    with assms(1) have d: "u \<notin> set S1" "u \<notin> set S2" by auto
    have pre: "u \<notin> set (concat (map ?f S1))"
      using d(1) nr minted_block_range[of c g K _ E] by auto
    have m1: "map ?f' S1 = map ?f S1" by (rule map_cong) (use d other in fastforce)+
    have m2: "map ?f' S2 = map ?f S2" by (rule map_cong) (use d other in fastforce)+
    have fu: "?f' u = u # replicate ?m (g k) @ rev (minted_block c g K u E)"
      by (simp add: minted_block_def e)
    have t: "minted_tail c g K S (E @ [e]) = minted_tail c g K S E"
      using True by (simp add: minted_tail_def e)
    have eq: "concat (map ?f S) = concat (map ?f S1) @ u # (rev (minted_block c g K u E) @ concat (map ?f S2))"
      by (simp add: S)
    have eq': "concat (map ?f' S) = concat (map ?f S1) @ u # replicate ?m (g k) @
                 (rev (minted_block c g K u E) @ concat (map ?f S2))"
      unfolding S by (simp add: m1 m2 fu del: map_eq_conv)
    have "foldl (src_step c g K) S (E @ [e])
        = (insert_after u (g k) ^^ ?m) (concat (map ?f S) @ minted_tail c g K S E)"
      by (simp add: IH src_step_def e)
    also have "\<dots> = (insert_after u (g k) ^^ ?m)
            (concat (map ?f S1) @ u # (rev (minted_block c g K u E) @ concat (map ?f S2) @ minted_tail c g K S E))"
      unfolding eq by simp
    also have "\<dots> = concat (map ?f S1) @ u # replicate ?m (g k) @
                 (rev (minted_block c g K u E) @ concat (map ?f S2) @ minted_tail c g K S E)"
      by (rule insert_after_found_pow[OF pre])
    also have "\<dots> = concat (map ?f' S) @ minted_tail c g K S (E @ [e])"
      unfolding t eq' by simp
    finally show ?thesis .
  next
    case False
    have "u \<notin> set (concat (map ?f S))"
      using False nr minted_block_range[of c g K _ E] by auto
    with nr minted_tail_range[of c g K S E]
    have out: "u \<notin> set (concat (map ?f S) @ minted_tail c g K S E)" by auto
    have m: "map ?f' S = map ?f S" by (rule map_cong) (use False other in fastforce)+
    have t: "minted_tail c g K S (E @ [e]) = minted_tail c g K S E @ replicate ?m (g k)"
      using False by (simp add: minted_tail_def e)
    have "foldl (src_step c g K) S (E @ [e])
        = (insert_after u (g k) ^^ ?m) (concat (map ?f S) @ minted_tail c g K S E)"
      by (simp add: IH src_step_def e)
    also have "\<dots> = (concat (map ?f S) @ minted_tail c g K S E) @ replicate ?m (g k)"
      by (rule insert_after_missing_pow[OF out ne])
    also have "\<dots> = concat (map ?f' S) @ minted_tail c g K S (E @ [e])"
      unfolding t m by simp
    finally show ?thesis .
  qed
qed

lemma distinct_filter_nth:
  assumes "\<And>i j. i < j \<Longrightarrow> j < length ys \<Longrightarrow> P (ys ! i) \<Longrightarrow> ys ! i \<noteq> ys ! j"
  shows "distinct (filter P ys)"
  using assms
proof (induction ys)
  case Nil
  then show ?case by simp
next
  case (Cons y ys)
  have "distinct (filter P ys)"
  proof (rule Cons.IH)
    fix i j assume "i < j" "j < length ys" "P (ys ! i)"
    with Cons.prems[of "Suc i" "Suc j"] show "ys ! i \<noteq> ys ! j" by simp
  qed
  moreover have "y \<notin> set ys" if "P y"
  proof
    assume "y \<in> set ys"
    then obtain j where "j < length ys" "ys ! j = y" by (auto simp: in_set_conv_nth)
    with Cons.prems[of 0 "Suc j"] that show False by simp
  qed
  ultimately show ?case by auto
qed

lemma enumerate_map_cong:
  assumes "\<And>k. k < length R \<Longrightarrow> f (k, R ! k) = h (R ! k)"
  shows "map f (List.enumerate 0 R) = map h R"
proof -
  have "map f (List.enumerate 0 R) = map (h \<circ> snd) (List.enumerate 0 R)"
    by (rule map_cong) (use assms in \<open>auto simp: in_set_enumerate_eq\<close>)
  also have "\<dots> = map h R" by (simp flip: map_map)
  finally show ?thesis .
qed

lemma rev_concat_map:
  assumes "\<And>x. rev (h x) = h x"
  shows "rev (concat (map h xs)) = concat (map h (rev xs))"
  by (induction xs) (simp_all add: assms)

lemma minted_block_after:
  assumes "\<And>k. k < length (repairs c) \<Longrightarrow> msg_uuid (c' ! snd (repairs c ! k)) = Some (g k)"
  shows "rev (minted_block c g K u (List.enumerate 0 (repairs c))) = minted_after c c' K u"
proof -
  let ?h = "\<lambda>(v, i). if v = u
              then replicate (count_list (getMessageScenes c (int i)) K) (uuid_text (c' ! i)) else []"
  have "map (\<lambda>(k, v, i). if v = u then replicate (count_list (getMessageScenes c (int i)) K) (g k) else [])
          (List.enumerate 0 (repairs c)) = map ?h (repairs c)"
  proof (rule enumerate_map_cong)
    fix k assume k: "k < length (repairs c)"
    obtain v i where e: "repairs c ! k = (v, i)" by (cases "repairs c ! k")
    from assms[OF k] have "uuid_text (c' ! i) = g k" by (simp add: e uuid_text_def)
    then show "(case (k, repairs c ! k) of (k, v, i) \<Rightarrow> if v = u then replicate (count_list (getMessageScenes c (int i)) K) (g k) else []) = ?h (repairs c ! k)"
      by (simp add: e)
  qed
  then have "minted_block c g K u (List.enumerate 0 (repairs c)) = concat (map ?h (repairs c))"
    by (simp add: minted_block_def)
  moreover have "rev (concat (map ?h (repairs c))) = concat (map ?h (rev (repairs c)))"
    by (rule rev_concat_map) auto
  ultimately show ?thesis by (simp add: minted_after_def)
qed

lemma minted_tail_appended:
  assumes "\<And>k. k < length (repairs c) \<Longrightarrow> msg_uuid (c' ! snd (repairs c ! k)) = Some (g k)"
  shows "minted_tail c g K S (List.enumerate 0 (repairs c)) = appended c c' K S"
proof -
  let ?h = "\<lambda>(v, i). if v \<in> set S then []
              else replicate (count_list (getMessageScenes c (int i)) K) (uuid_text (c' ! i))"
  have "map (\<lambda>(k, v, i). if v \<in> set S then [] else replicate (count_list (getMessageScenes c (int i)) K) (g k))
          (List.enumerate 0 (repairs c)) = map ?h (repairs c)"
  proof (rule enumerate_map_cong)
    fix k assume k: "k < length (repairs c)"
    obtain v i where e: "repairs c ! k = (v, i)" by (cases "repairs c ! k")
    from assms[OF k] have "uuid_text (c' ! i) = g k" by (simp add: e uuid_text_def)
    then show "(case (k, repairs c ! k) of (k, v, i) \<Rightarrow> if v \<in> set S then [] else replicate (count_list (getMessageScenes c (int i)) K) (g k)) = ?h (repairs c ! k)"
      by (simp add: e)
  qed
  then show ?thesis by (simp add: minted_tail_def appended_def)
qed

lemma repairs_live: "(u, i) \<in> set (repairs c) \<Longrightarrow> live c u"
  unfolding repairs_iff live_def by (metis length_map nth_map nth_mem)

lemma count_later: "length (repairs c) = length (filter (later_occurrence c) [0..<length c])"
proof -
  have "set (map snd (repairs c)) = set (filter (later_occurrence c) [0..<length c])"
  proof (rule set_eqI)
    fix i
    show "i \<in> set (map snd (repairs c)) \<longleftrightarrow> i \<in> set (filter (later_occurrence c) [0..<length c])"
    proof (cases "i < length c")
      case True
      then show ?thesis by (simp add: later_occurrence_repairs)
    next
      case False
      then have "i \<notin> snd ` set (repairs c)" by (auto simp: repairs_iff)
      with False show ?thesis by simp
    qed
  qed
  moreover have "distinct (filter (later_occurrence c) [0..<length c])" by simp
  ultimately have "length (map snd (repairs c)) = length (filter (later_occurrence c) [0..<length c])"
    using repairs_distinct[of c] by (metis distinct_card)
  then show ?thesis by simp
qed

lemma getScene_put: "getScene (put_scenes md ss) K = map_of ss K"
  by (simp add: getScene_def)

lemma reconcile_dup_facts:
  assumes "reconcileDuplicatedMessages md c g = (n, md', c', g')"
  shows "n = length (repairs c)" "g' = (\<lambda>m. g (m + n))" "length c' = length c"
    "\<And>i. i < length c \<Longrightarrow> i \<notin> snd ` set (repairs c) \<Longrightarrow> c' ! i = c ! i"
    "\<And>k. k < length (repairs c) \<Longrightarrow> msg_uuid (c' ! snd (repairs c ! k)) = Some (g k)"
    "\<And>K. getScene md' K = map_option (\<lambda>sc. sc\<lparr>sourceMessageUUIDs :=
         foldl (src_step c g K) (sourceMessageUUIDs sc) (List.enumerate 0 (repairs c))\<rparr>) (getScene md K)"
proof -
  have m: "i < length c \<and> msg_uuid (c ! i) = Some u" if "(u, i) \<in> set (repairs c)" for u i
    using that by (simp add: repairs_iff)
  from fold_repairs[OF repairs_distinct m, of c "scenes (getSceneFoldData md)" g]
  obtain ss1 c1 where
    f: "foldl fixd (scenes (getSceneFoldData md), c, g, 0) (repairs c)
          = (ss1, c1, (\<lambda>m. g (m + length (repairs c))), length (repairs c))"
    and len: "length c1 = length c"
    and same: "\<forall>i<length c. i \<notin> snd ` set (repairs c) \<longrightarrow> c1 ! i = c ! i"
    and new: "\<forall>k<length (repairs c). msg_uuid (c1 ! snd (repairs c ! k)) = Some (g k)"
    and store: "\<forall>K. map_of ss1 K = map_option (\<lambda>sc. sc\<lparr>sourceMessageUUIDs :=
                 foldl (src_step c g K) (sourceMessageUUIDs sc) (List.enumerate 0 (repairs c))\<rparr>)
                 (map_of (scenes (getSceneFoldData md)) K)"
    by blast
  from assms have r: "n = length (repairs c)" "md' = put_scenes md ss1" "c' = c1"
    "g' = (\<lambda>m. g (m + length (repairs c)))"
    by (auto simp: reconcile_as_fold f)
  show "n = length (repairs c)" by (rule r(1))
  show "g' = (\<lambda>m. g (m + n))" by (simp add: r)
  show "length c' = length c" by (simp add: r len)
  show "\<And>i. i < length c \<Longrightarrow> i \<notin> snd ` set (repairs c) \<Longrightarrow> c' ! i = c ! i"
    using same by (simp add: r)
  show "\<And>k. k < length (repairs c) \<Longrightarrow> msg_uuid (c' ! snd (repairs c ! k)) = Some (g k)"
    using new by (simp add: r)
  show "\<And>K. getScene md' K = map_option (\<lambda>sc. sc\<lparr>sourceMessageUUIDs :=
         foldl (src_step c g K) (sourceMessageUUIDs sc) (List.enumerate 0 (repairs c))\<rparr>) (getScene md K)"
    using store by (simp add: r getScene_put) (simp add: getScene_def)
qed

lemma reconcile_dup_unique:
  assumes "inj g" and "\<And>k. \<not> live c (g k)"
    and "reconcileDuplicatedMessages md c g = (n, md', c', g')"
  shows "unique_uuids c'"
  unfolding unique_uuids_def
proof (rule distinct_filter_nth)
  note f = reconcile_dup_facts[OF assms(3)]
  fix i j
  assume ij: "i < j" "j < length (map msg_uuid c')" and t: "truthy (map msg_uuid c' ! i)"
  then have lt: "i < length c" "j < length c" by (simp_all add: f(3))
  have rep: "\<exists>k<length (repairs c). snd (repairs c ! k) = p \<and> msg_uuid (c' ! p) = Some (g k)"
    if "p \<in> snd ` set (repairs c)" for p
  proof -
    from that obtain k where "k < length (repairs c)" "snd (repairs c ! k) = p"
      by (auto simp: in_set_conv_nth)
    with f(5)[of k] show ?thesis by auto
  qed
  have dead: "msg_uuid (c ! p) \<noteq> Some (g k)" if "p < length c" for p k
    using assms(2)[of k] that unfolding live_def by (metis length_map nth_map nth_mem)
  show "map msg_uuid c' ! i \<noteq> map msg_uuid c' ! j"
  proof
    assume "map msg_uuid c' ! i = map msg_uuid c' ! j"
    with lt have eq: "msg_uuid (c' ! i) = msg_uuid (c' ! j)" by (simp add: f(3))
    from t lt have ti: "truthy (msg_uuid (c' ! i))" by (simp add: f(3))
    show False
    proof (cases "i \<in> snd ` set (repairs c)")
      case True
      from rep[OF True] obtain k1 where k1: "k1 < length (repairs c)" "snd (repairs c ! k1) = i"
        "msg_uuid (c' ! i) = Some (g k1)" by blast
      show False
      proof (cases "j \<in> snd ` set (repairs c)")
        case True
        from rep[OF True] obtain k2 where k2: "k2 < length (repairs c)" "snd (repairs c ! k2) = j"
          "msg_uuid (c' ! j) = Some (g k2)" by blast
        from eq k1 k2 have "g k1 = g k2" by simp
        with assms(1) have "k1 = k2" by (simp add: inj_eq)
        with k1 k2 ij show False by simp
      next
        case False
        from f(4)[OF lt(2) False] eq k1 dead[OF lt(2), of k1] show False by metis
      qed
    next
      case False
      note ki = f(4)[OF lt(1) False]
      show False
      proof (cases "j \<in> snd ` set (repairs c)")
        case True
        from rep[OF True] obtain k2 where "msg_uuid (c' ! j) = Some (g k2)" by blast
        with ki eq dead[OF lt(1), of k2] show False by metis
      next
        case False
        from f(4)[OF lt(2) False] ki eq have e: "msg_uuid (c ! i) = msg_uuid (c ! j)" by simp
        from ti ki obtain u where u: "msg_uuid (c ! i) = Some u" "u \<noteq> []"
          by (cases "msg_uuid (c ! i)") (auto simp: truthy_def)
        with e ij lt have "(u, j) \<in> set (repairs c)" by (auto simp: repairs_iff)
        then have "j \<in> snd ` set (repairs c)" by force
        with False show False by simp
      qed
    qed
  qed
qed

lemma count_list_pos: "x \<in> set xs \<Longrightarrow> 0 < count_list xs x"
  by (induction xs) auto

lemma minted_member:
  assumes "(u, i) \<in> set (repairs c)" and "K \<in> set (getMessageScenes c (int i))"
  shows "uuid_text (c' ! i) \<in> set (minted_after c c' K u)"
proof -
  from assms(2) have "0 < count_list (getMessageScenes c (int i)) K"
    by (rule count_list_pos)
  with assms(1) show ?thesis
    unfolding minted_after_def by (auto intro!: bexI[where x="(u, i)"])
qed

lemma inj_gen_x: "inj gen_x"
proof (rule injI)
  fix a b assume "gen_x a = gen_x b"
  then have "length (gen_x a) = length (gen_x b)" by simp
  then show "a = b" by (simp add: gen_x_def)
qed

lemma fresh_d: "\<not> live chat_d (gen_x k)"
  by (simp add: live_def chat_d_def msg_with_def msg_uuid_def gen_x_def)

lemma occurrences_d: "uuidOccurrences chat_d = [(''a'', [0, 2, 4]), (''b'', [1, 3]), (''q'', [6])]"
  by (simp add: uuidOccurrences_def chat_d_def msg_with_def msg_uuid_def)

lemma gen_x_values: "gen_x 0 = ''x''" "gen_x (Suc 0) = ''xx''" "gen_x (Suc (Suc 0)) = ''xxx''"
  by (simp_all add: gen_x_def)

lemma reconcile_d:
  "reconcileDuplicatedMessages store_d chat_d gen_x
     = (3, store_d_after, chat_d_after, (\<lambda>n. gen_x (Suc (Suc (Suc n)))))"
  unfolding reconcileDuplicatedMessages_def occurrences_d
  by (simp add: fix_occurrences_def fix_duplicate_def mint_def update_msg_def chat_at_def
        set_uuid_def getMessageScenes_def add_to_scene_def insert_after_def
        store_d_def store_of_def getSceneFoldData_def put_scenes_def scene_with_def
        chat_d_def msg_with_def gen_x_values store_d_after_def chat_d_after_def Let_def)

lemma later_d: "filter (later_occurrence chat_d) [0..<length chat_d] = [2, 3, 4]"
  by (simp add: later_occurrence_def chat_d_def msg_with_def msg_uuid_def truthy_def upt_rec)

lemma repairs_d: "repairs chat_d = [(''a'', 2), (''a'', 4), (''b'', 3)]"
  by (simp add: repairs_def occurrences_d)

lemma minted_d:
  "minted_after chat_d chat_d_after ''s1'' ''a'' = [''xx'', ''x'']"
  "minted_after chat_d chat_d_after ''s1'' ''b'' = [''xxx'']"
  "appended chat_d chat_d_after ''s1'' [''a'', ''b''] = []"
  "appended chat_d chat_d_after ''s2'' [''q''] = [''xx'']"
  unfolding minted_after_def appended_def repairs_d
  by (simp_all add: getMessageScenes_def chat_at_def chat_d_def chat_d_after_def msg_with_def
        uuid_text_def msg_uuid_def)

lemma indexOf_prefix:
  "u \<notin> set pre \<Longrightarrow> indexOf (pre @ xs) u = map_option (\<lambda>p. length pre + p) (indexOf xs u)"
proof (induction pre)
  case Nil
  show ?case by (cases "indexOf xs u") simp_all
next
  case (Cons a pre)
  then show ?case by (cases "indexOf xs u") auto
qed

lemma insert_after_prefix: "u \<notin> set pre \<Longrightarrow> insert_after u n (pre @ xs) = pre @ insert_after u n xs"
  by (cases "indexOf xs u") (simp_all add: insert_after_def indexOf_prefix)

lemma insert_after_prefix_pow:
  "u \<notin> set pre \<Longrightarrow> (insert_after u n ^^ m) (pre @ xs) = pre @ (insert_after u n ^^ m) xs"
  by (induction m) (simp_all add: insert_after_prefix)

lemma set_after_first: "set (after_first f seen S) \<subseteq> set S \<union> (\<Union>v. set (f v))"
  by (induction S arbitrary: seen) auto

lemma after_first_cong:
  "(\<And>v. v \<in> set S \<Longrightarrow> v \<notin> set seen \<Longrightarrow> f v = f' v) \<Longrightarrow> after_first f seen S = after_first f' seen S"
proof (induction S arbitrary: seen)
  case Nil
  then show ?case by simp
next
  case (Cons v S)
  have "after_first f (v # seen) S = after_first f' (v # seen) S"
    by (rule Cons.IH) (use Cons.prems in auto)
  then show ?case using Cons.prems[of v] by simp
qed

lemma after_first_none:
  "(\<And>v. v \<in> set S \<Longrightarrow> v \<notin> set seen \<Longrightarrow> f v = []) \<Longrightarrow> after_first f seen S = S"
proof (induction S arbitrary: seen)
  case Nil
  then show ?case by simp
next
  case (Cons v S)
  have "after_first f (v # seen) S = S"
    by (rule Cons.IH) (use Cons.prems in auto)
  then show ?case using Cons.prems[of v] by simp
qed

lemma after_first_distinct:
  "distinct S \<Longrightarrow> set S \<inter> set seen = {} \<Longrightarrow> after_first f seen S = concat (map (\<lambda>v. v # f v) S)"
proof (induction S arbitrary: seen)
  case Nil
  then show ?case by simp
next
  case (Cons v S)
  have "after_first f (v # seen) S = concat (map (\<lambda>v. v # f v) S)"
    by (rule Cons.IH) (use Cons.prems in auto)
  then show ?case using Cons.prems by simp
qed

lemma after_first_insert:
  assumes "u \<in> set S" and "u \<notin> set seen" and "\<And>v. u \<notin> set (f v)"
    and "f' u = replicate m n @ f u" and "\<And>v. v \<noteq> u \<Longrightarrow> f' v = f v"
  shows "(insert_after u n ^^ m) (after_first f seen S @ T) = after_first f' seen S @ T"
  using assms(1,2)
proof (induction S arbitrary: seen)
  case Nil
  then show ?case by simp
next
  case (Cons v S)
  show ?case
  proof (cases "v = u")
    case True
    have same: "after_first f' (u # seen) S = after_first f (u # seen) S"
      by (rule after_first_cong) (use assms(5) in auto)
    have "(insert_after u n ^^ m) ([] @ u # (f u @ after_first f (u # seen) S @ T))
            = [] @ u # replicate m n @ (f u @ after_first f (u # seen) S @ T)"
      by (rule insert_after_found_pow) simp
    then show ?thesis using Cons.prems(2) by (simp add: True same assms(4))
  next
    case False
    with Cons.prems have u: "u \<in> set S" "u \<notin> set (v # seen)" by simp_all
    let ?pre = "if v \<in> set seen then [v] else v # f v"
    have pre: "u \<notin> set ?pre" using False assms(3)[of v] by simp
    have "(insert_after u n ^^ m) (?pre @ (after_first f (v # seen) S @ T))
            = ?pre @ (insert_after u n ^^ m) (after_first f (v # seen) S @ T)"
      by (rule insert_after_prefix_pow[OF pre])
    also have "(insert_after u n ^^ m) (after_first f (v # seen) S @ T)
            = after_first f' (v # seen) S @ T"
      by (rule Cons.IH[OF u])
    finally show ?thesis using False assms(5)[of v] by simp
  qed
qed

lemma sources_closed_form_general:
  assumes "\<And>k u i k'. (k, u, i) \<in> set E \<Longrightarrow> g k' \<noteq> u"
  shows "foldl (src_step c g K) S E
           = behind_first (\<lambda>v. rev (minted_block c g K v E)) S @ minted_tail c g K S E"
  using assms
proof (induction E rule: rev_induct)
  case Nil
  show ?case by (simp add: minted_block_def minted_tail_def behind_first_def after_first_none)
next
  case (snoc e E)
  obtain k u i where e: "e = (k, u, i)" by (cases e)
  let ?m = "count_list (getMessageScenes c (int i)) K"
  let ?f = "\<lambda>v. rev (minted_block c g K v E)"
  let ?f' = "\<lambda>v. rev (minted_block c g K v (E @ [e]))"
  from snoc.prems[of k u i] have ne: "g k' \<noteq> u" for k' by (simp add: e)
  then have nr: "u \<notin> range g" by auto
  have IH: "foldl (src_step c g K) S E = after_first ?f [] S @ minted_tail c g K S E"
    unfolding behind_first_def[symmetric] by (rule snoc.IH) (use snoc.prems in auto)
  have st: "foldl (src_step c g K) S (E @ [e])
        = (insert_after u (g k) ^^ ?m) (after_first ?f [] S @ minted_tail c g K S E)"
    by (simp add: IH src_step_def e)
  have nf: "u \<notin> set (?f v)" for v
    using nr minted_block_range[of c g K v E] by auto
  show ?case
  proof (cases "u \<in> set S")
    case True
    have t: "minted_tail c g K S (E @ [e]) = minted_tail c g K S E"
      using True by (simp add: minted_tail_def e)
    have "(insert_after u (g k) ^^ ?m) (after_first ?f [] S @ minted_tail c g K S E)
            = after_first ?f' [] S @ minted_tail c g K S E"
      by (rule after_first_insert[OF True _ nf]) (simp_all add: minted_block_def e)
    then show ?thesis
      unfolding st t behind_first_def .
  next
    case False
    have "u \<notin> set (after_first ?f [] S)"
      using False nf set_after_first[of ?f "[]" S] by blast
    with nr minted_tail_range[of c g K S E]
    have out: "u \<notin> set (after_first ?f [] S @ minted_tail c g K S E)" by auto
    have m: "after_first ?f' [] S = after_first ?f [] S"
      by (rule after_first_cong) (use False in \<open>auto simp: minted_block_def e\<close>)
    have t: "minted_tail c g K S (E @ [e]) = minted_tail c g K S E @ replicate ?m (g k)"
      using False by (simp add: minted_tail_def e)
    show ?thesis
      unfolding st t behind_first_def m insert_after_missing_pow[OF out ne] by simp
  qed
qed

lemma appended_member:
  assumes "(u, i) \<in> set (repairs c)" and "K \<in> set (getMessageScenes c (int i))"
    and "u \<notin> set S"
  shows "uuid_text (c' ! i) \<in> set (appended c c' K S)"
proof -
  from assms(2) have "0 < count_list (getMessageScenes c (int i)) K"
    by (rule count_list_pos)
  with assms(1,3) show ?thesis
    unfolding appended_def by (auto intro!: bexI[where x="(u, i)"])
qed

lemma untagged_none:
  assumes "\<And>i. i < length c \<Longrightarrow> later_occurrence c i \<Longrightarrow> K \<notin> set (getMessageScenes c (int i))"
  shows "minted_after c c' K u = []" "appended c c' K S = []"
proof -
  have z: "count_list (getMessageScenes c (int i)) K = 0" if "(v, i) \<in> set (repairs c)" for v i
  proof -
    from that have "i < length c" by (simp add: repairs_iff)
    moreover from this that have "later_occurrence c i"
      by (force simp: later_occurrence_repairs)
    ultimately show ?thesis using assms by (simp add: count_notin)
  qed
  show "minted_after c c' K u = []"
    unfolding minted_after_def by (auto simp: z)
  show "appended c c' K S = []"
    unfolding appended_def by (auto simp: z)
qed

text \<open>
  C2, as stated: the second message is a duplicate of the first and carries no scene
  tag; scene \<open>s1\<close> has the shared identifier \<open>a\<close> as a source. The call gives the
  duplicate the new identifier \<open>x\<close> and returns 1, but the scenes to update are read
  from the duplicate's own tags, so \<open>s1\<close> is left as it was: the new identifier is not
  inserted behind \<open>a\<close>.
\<close>

theorem C2_untagged_duplicate:
  "map msg_uuid chat_untagged = [Some ''a'', Some ''a''] \<and>
   map_option sourceMessageUUIDs (getScene store_untagged ''s1'') = Some [''a''] \<and>
   getMessageScenes chat_untagged 1 = [] \<and>
   reconcileDuplicatedMessages store_untagged chat_untagged gen_x
     = (1, store_untagged, [msg_with (Some ''a'') (Some [''s1'']), msg_with (Some ''x'') None],
        (\<lambda>n. gen_x (Suc n)))"
proof -
  have o: "uuidOccurrences chat_untagged = [(''a'', [0, 1])]"
    by (simp add: uuidOccurrences_def chat_untagged_def msg_with_def msg_uuid_def)
  have r: "reconcileDuplicatedMessages store_untagged chat_untagged gen_x
     = (1, store_untagged, [msg_with (Some ''a'') (Some [''s1'']), msg_with (Some ''x'') None],
        (\<lambda>n. gen_x (Suc n)))"
    unfolding reconcileDuplicatedMessages_def o
    by (simp add: fix_occurrences_def fix_duplicate_def mint_def update_msg_def chat_at_def
        set_uuid_def getMessageScenes_def store_untagged_def store_of_def getSceneFoldData_def
        put_scenes_def chat_untagged_def msg_with_def gen_x_values Let_def)
  show ?thesis
    using r
    by (simp add: chat_untagged_def msg_with_def msg_uuid_def getScene_def store_untagged_def
          store_of_def getSceneFoldData_def scene_with_def getMessageScenes_def chat_at_def)
qed

text \<open>
  C2, amended: \<open>reconcileDuplicatedMessages\<close>, called with a generator that is
  injective and never returns an identifier some message of the chat carries. Afterwards
  no two messages share a truthy identifier; the chat has the same length, every message
  that is not a later occurrence of an identifier is untouched (so the earliest occurrence
  keeps the original identifier) and every later occurrence carries a minted identifier;
  the number returned is the number of later occurrences, and the generator has been
  called that often. The scenes that receive a minted identifier are those named in the
  tags of the duplicate: every record of the store keeps all its fields but the source
  list, and the new source list is the old one with, directly behind the first occurrence
  of each source, the identifiers minted for those of its duplicates that are tagged with
  the scene (the latest minted first), followed by the identifiers minted for tagged
  duplicates whose original is not a source of the scene. So the new identifier of a
  duplicate tagged with a scene is in the block behind its original, or among the
  appended ones when the original is not a source; and a scene no duplicate is tagged
  with is left as it was.
\<close>

theorem C2_duplication_safety:
  assumes "inj g" and "\<And>k. \<not> live c (g k)"
    and "reconcileDuplicatedMessages md c g = (n, md', c', g')"
  shows "unique_uuids c' \<and> length c' = length c \<and>
    (\<forall>i<length c. \<not> later_occurrence c i \<longrightarrow> c' ! i = c ! i) \<and>
    (\<forall>i<length c. later_occurrence c i \<longrightarrow> (\<exists>k<n. msg_uuid (c' ! i) = Some (g k))) \<and>
    n = length (filter (later_occurrence c) [0..<length c]) \<and>
    g' = (\<lambda>m. g (m + n)) \<and>
    (\<forall>K. getScene md' K = map_option (\<lambda>sc. sc\<lparr>sourceMessageUUIDs :=
          behind_first (minted_after c c' K) (sourceMessageUUIDs sc)
            @ appended c c' K (sourceMessageUUIDs sc)\<rparr>) (getScene md K)) \<and>
    (\<forall>K sc u i. getScene md K = Some sc \<and> i < length c \<and> later_occurrence c i \<and>
         msg_uuid (c ! i) = Some u \<and> K \<in> set (getMessageScenes c (int i)) \<longrightarrow>
         uuid_text (c' ! i) \<in> set (if u \<in> set (sourceMessageUUIDs sc) then minted_after c c' K u
                                    else appended c c' K (sourceMessageUUIDs sc))) \<and>
    (\<forall>K. (\<forall>i<length c. later_occurrence c i \<longrightarrow> K \<notin> set (getMessageScenes c (int i))) \<longrightarrow>
         getScene md' K = getScene md K)"
proof -
  note f = reconcile_dup_facts[OF assms(3)]
  have keep: "c' ! i = c ! i" if "i < length c" "\<not> later_occurrence c i" for i
    using that f(4)[of i] by (simp add: later_occurrence_repairs)
  have fresh: "\<exists>k<n. msg_uuid (c' ! i) = Some (g k)" if "i < length c" "later_occurrence c i" for i
  proof -
    from that have "i \<in> snd ` set (repairs c)" by (simp add: later_occurrence_repairs)
    then obtain k where "k < length (repairs c)" "snd (repairs c ! k) = i"
      by (auto simp: in_set_conv_nth)
    with f(5)[of k] show ?thesis by (auto simp: f(1))
  qed
  have ne: "g k' \<noteq> u" if "(k, u, i) \<in> set (List.enumerate 0 (repairs c))" for k u i k'
  proof -
    from that have "(u, i) \<in> set (repairs c)"
      by (auto simp: in_set_enumerate_eq) (metis nth_mem)
    from repairs_live[OF this] assms(2)[of k'] show ?thesis by auto
  qed
  have fn: "(\<lambda>v. rev (minted_block c g K v (List.enumerate 0 (repairs c)))) = minted_after c c' K" for K
    by (rule ext) (rule minted_block_after[OF f(5)])
  have closed: "foldl (src_step c g K) S (List.enumerate 0 (repairs c))
      = behind_first (minted_after c c' K) S @ appended c c' K S" for K S
    by (simp add: sources_closed_form_general[OF ne] fn minted_tail_appended[OF f(5)])
  have c4: "\<forall>K. getScene md' K = map_option (\<lambda>sc. sc\<lparr>sourceMessageUUIDs :=
          behind_first (minted_after c c' K) (sourceMessageUUIDs sc)
            @ appended c c' K (sourceMessageUUIDs sc)\<rparr>) (getScene md K)"
    unfolding f(6) closed by simp
  have member: "uuid_text (c' ! i) \<in> set (if u \<in> set (sourceMessageUUIDs sc) then minted_after c c' K u
                                    else appended c c' K (sourceMessageUUIDs sc))"
    if "i < length c" "later_occurrence c i" "msg_uuid (c ! i) = Some u"
      "K \<in> set (getMessageScenes c (int i))" for K sc u i
  proof -
    from that(1,2) obtain v where "(v, i) \<in> set (repairs c)"
      by (auto simp: later_occurrence_repairs)
    with that(3) have r: "(u, i) \<in> set (repairs c)" by (simp add: repairs_iff)
    show ?thesis
      using minted_member[OF r that(4)] appended_member[OF r that(4)] by simp
  qed
  have untouched: "getScene md' K = getScene md K"
    if "\<forall>i<length c. later_occurrence c i \<longrightarrow> K \<notin> set (getMessageScenes c (int i))" for K
  proof -
    have n: "minted_after c c' K u = []" "appended c c' K S = []" for u S
      using untagged_none[of c K] that by blast+
    have "behind_first (minted_after c c' K) S = S" for S
      unfolding behind_first_def by (rule after_first_none) (simp add: n)
    then show ?thesis
      using c4 by (cases "getScene md K") (simp_all add: n)
  qed
  have c1: "\<forall>i<length c. \<not> later_occurrence c i \<longrightarrow> c' ! i = c ! i"
    using keep by blast
  have c2: "\<forall>i<length c. later_occurrence c i \<longrightarrow> (\<exists>k<n. msg_uuid (c' ! i) = Some (g k))"
    using fresh by blast
  have c3: "n = length (filter (later_occurrence c) [0..<length c])"
    using f(1) count_later[of c] by simp
  have c5: "\<forall>K sc u i. getScene md K = Some sc \<and> i < length c \<and> later_occurrence c i \<and>
         msg_uuid (c ! i) = Some u \<and> K \<in> set (getMessageScenes c (int i)) \<longrightarrow>
         uuid_text (c' ! i) \<in> set (if u \<in> set (sourceMessageUUIDs sc) then minted_after c c' K u
                                    else appended c c' K (sourceMessageUUIDs sc))"
    using member by blast
  have c6: "\<forall>K. (\<forall>i<length c. later_occurrence c i \<longrightarrow> K \<notin> set (getMessageScenes c (int i))) \<longrightarrow>
         getScene md' K = getScene md K"
    using untouched by blast
  show ?thesis
    apply (intro conjI)
    subgoal by (rule reconcile_dup_unique[OF assms])
    subgoal by (rule f(3))
    subgoal by (rule c1)
    subgoal by (rule c2)
    subgoal by (rule c3)
    subgoal by (rule f(2))
    subgoal by (rule c4)
    subgoal by (rule c5)
    subgoal by (rule c6)
    done
qed

theorem C2_duplication_safety_witness:
  "inj gen_x \<and>
   reconcileDuplicatedMessages store_d chat_d gen_x
     = (3, store_d_after, chat_d_after, (\<lambda>n. gen_x (Suc (Suc (Suc n))))) \<and>
   unique_uuids chat_d_after \<and>
   filter (later_occurrence chat_d) [0..<length chat_d] = [2, 3, 4] \<and>
   map msg_uuid chat_d = [Some ''a'', Some ''b'', Some ''a'', Some ''b'', Some ''a'', None, Some ''q''] \<and>
   map msg_uuid chat_d_after
     = [Some ''a'', Some ''b'', Some ''x'', Some ''xxx'', Some ''xx'', None, Some ''q''] \<and>
   map_option sourceMessageUUIDs (getScene store_d ''s1'') = Some [''a'', ''b''] \<and>
   map_option sourceMessageUUIDs (getScene store_d_after ''s1'')
     = Some (behind_first (minted_after chat_d chat_d_after ''s1'') [''a'', ''b'']
             @ appended chat_d chat_d_after ''s1'' [''a'', ''b'']) \<and>
   behind_first (minted_after chat_d chat_d_after ''s1'') [''a'', ''b'']
     = [''a'', ''xx'', ''x'', ''b'', ''xxx''] \<and>
   getMessageScenes chat_d 4 = [''s1'', ''s2''] \<and>
   map_option sourceMessageUUIDs (getScene store_d ''s2'') = Some [''q''] \<and>
   map_option sourceMessageUUIDs (getScene store_d_after ''s2'') = Some [''q'', ''xx'']"
proof -
  have u: "map msg_uuid chat_d = [Some ''a'', Some ''b'', Some ''a'', Some ''b'', Some ''a'', None, Some ''q'']"
    "map msg_uuid chat_d_after
       = [Some ''a'', Some ''b'', Some ''x'', Some ''xxx'', Some ''xx'', None, Some ''q'']"
    by (simp_all add: chat_d_def chat_d_after_def msg_with_def msg_uuid_def)
  have s: "getScene store_d ''s1'' = Some (scene_with ''s1'' [''a'', ''b''] None Defined)"
    "getScene store_d ''s2'' = Some (scene_with ''s2'' [''q''] None Defined)"
    "getScene store_d_after ''s1'' = Some (scene_with ''s1'' [''a'', ''xx'', ''x'', ''b'', ''xxx''] None Defined)"
    "getScene store_d_after ''s2'' = Some (scene_with ''s2'' [''q'', ''xx''] None Defined)"
    by (simp_all add: getScene_def store_d_def store_d_after_def store_of_def getSceneFoldData_def)
  have v: "sourceMessageUUIDs (scene_with k srcs summ st) = srcs" for k srcs summ st
    by (simp add: scene_with_def)
  have t: "getMessageScenes chat_d 4 = [''s1'', ''s2'']"
    by (simp add: getMessageScenes_def chat_at_def chat_d_def msg_with_def)
  have b: "behind_first (minted_after chat_d chat_d_after ''s1'') [''a'', ''b'']
     = [''a'', ''xx'', ''x'', ''b'', ''xxx'']"
    by (simp add: behind_first_def minted_d)
  show ?thesis
    using C2_duplication_safety[OF inj_gen_x fresh_d reconcile_d]
      inj_gen_x reconcile_d later_d u s v minted_d t b
    by simp
qed

end
